theory Spec2Isabelle
  imports
    Complex_Main
    "HOL-Library.Char_ord"
    "HOL-Library.List_Lexorder"
    "HOL-Library.Multiset"
begin

section \<open>Day event layout: data model\<close>

text \<open>
  Embedding of \<^verbatim>\<open>src/utils/DayEventLayout.js\<close>. JavaScript numbers are
  modelled as exact reals (rounding of doubles is not modelled), \<^verbatim>\<open>{value, unit}\<close>
  objects as the record \<open>dimension\<close>, and the proxy objects of class \<^verbatim>\<open>Event\<close>
  as cells of a store: a list of \<open>event\<close> records addressed by position. The
  relationship fields \<^verbatim>\<open>rows\<close>, \<^verbatim>\<open>leaves\<close>, \<^verbatim>\<open>container\<close>,
  \<^verbatim>\<open>row\<close> and \<^verbatim>\<open>column\<close> hold addresses; \<open>None\<close> is
  \<^verbatim>\<open>undefined\<close>.
\<close>

record dimension =
  d_value :: real
  d_unit :: string

text \<open>The domain event handed in by the caller: \<^verbatim>\<open>data.width\<close> and
  \<^verbatim>\<open>data.eventType\<close> are the two fields the layout reads; \<open>p_id\<close> stands for
  the identity of the object.\<close>

record payload =
  p_id :: nat
  p_width :: "dimension option"
  p_eventType :: "string option"

text \<open>What \<^verbatim>\<open>slotMetrics.getRange(accessors.start(data), accessors.end(data))\<close>
  returns; \<open>r_startMs\<close> and \<open>r_endMs\<close> are \<^verbatim>\<open>+startDate\<close> and
  \<^verbatim>\<open>+endDate\<close>.\<close>

record range =
  r_start :: real
  r_end :: real
  r_startMs :: real
  r_endMs :: real
  r_top :: real
  r_height :: real

type_synonym addr = nat

record event =
  e_start :: real
  e_end :: real
  e_startMs :: real
  e_endMs :: real
  e_top :: real
  e_height :: real
  e_data :: payload
  e_rows :: "addr list option"
  e_leaves :: "addr list option"
  e_container :: "addr option"
  e_row :: "addr option"
  e_column :: "nat option"

text \<open>The constructor: the two collaborators \<^verbatim>\<open>accessors\<close> and
  \<^verbatim>\<open>slotMetrics\<close> enter as the one function \<open>locate\<close>.\<close>

definition newEvent :: "(payload \<Rightarrow> range) \<Rightarrow> payload \<Rightarrow> event" where
  "newEvent locate d =
     (let g = locate d in
      \<lparr> e_start = r_start g, e_end = r_end g,
        e_startMs = r_startMs g, e_endMs = r_endMs g,
        e_top = r_top g, e_height = r_height g, e_data = d,
        e_rows = None, e_leaves = None, e_container = None, e_row = None,
        e_column = None \<rparr>)"

text \<open>\<^verbatim>\<open>get eventType()\<close>: the payload's key when it is truthy (a non-empty
  string), else \<^verbatim>\<open>null\<close>.\<close>

definition eventType :: "event \<Rightarrow> string option" where
  "eventType e =
     (case p_eventType (e_data e) of
        None \<Rightarrow> None
      | Some k \<Rightarrow> if k = [] then None else Some k)"

datatype error = TypeError | RangeError | NonFinite

section \<open>Render order\<close>

subsection \<open>\<^verbatim>\<open>orderBy\<close> of lodash\<close>

text \<open>
  \<^verbatim>\<open>orderBy(events, ['eventType', 'startMs', e => -e.endMs], ['desc', 'asc', 'asc'])\<close>.
  The function is lodash's (\<^verbatim>\<open>import orderBy from 'lodash/orderBy'\<close>), modelled after
  lodash 4: \<^verbatim>\<open>baseOrderBy\<close> pairs every element with its criteria and its index,
  sorts with \<^verbatim>\<open>compareMultiple\<close> and returns the elements.
  \<^verbatim>\<open>compareAscending\<close> orders two defined values by \<^verbatim>\<open><\<close> and
  \<^verbatim>\<open>></\<close> and puts \<^verbatim>\<open>null\<close> after every defined value;
  \<^verbatim>\<open>compareMultiple\<close> negates the result of a criterion whose order is
  \<^verbatim>\<open>'desc'\<close> and falls back to the difference of the indices when all
  criteria are equal.
\<close>

definition compareAscending :: "'a::linorder \<Rightarrow> 'a \<Rightarrow> int" where
  "compareAscending v oth = (if v > oth then 1 else if v < oth then - 1 else 0)"

definition compareAscendingNull :: "string option \<Rightarrow> string option \<Rightarrow> int" where
  "compareAscendingNull v oth =
     (case v of
        None \<Rightarrow> (case oth of None \<Rightarrow> 0 | Some b \<Rightarrow> 1)
      | Some a \<Rightarrow> (case oth of None \<Rightarrow> - 1 | Some b \<Rightarrow> compareAscending a b))"

definition compareMultiple :: "nat \<times> event \<Rightarrow> nat \<times> event \<Rightarrow> int" where
  "compareMultiple object other =
     (let r1 = compareAscendingNull (eventType (snd object)) (eventType (snd other)) in
      if r1 \<noteq> 0 then r1 * (- 1)
      else let r2 = compareAscending (e_startMs (snd object)) (e_startMs (snd other)) in
      if r2 \<noteq> 0 then r2
      else let r3 = compareAscending (- e_endMs (snd object)) (- e_endMs (snd other)) in
      if r3 \<noteq> 0 then r3
      else int (fst object) - int (fst other))"

text \<open>\<^verbatim>\<open>array.sort(comparer)\<close>: the comparer never returns 0 on two different
  indices, so the sorted array is determined; it is computed here by insertion.\<close>

fun insertSorted :: "nat \<times> event \<Rightarrow> (nat \<times> event) list \<Rightarrow> (nat \<times> event) list" where
  "insertSorted x [] = [x]"
| "insertSorted x (y # ys) =
     (if compareMultiple x y < 0 then x # y # ys else y # insertSorted x ys)"

definition baseSortBy :: "(nat \<times> event) list \<Rightarrow> (nat \<times> event) list" where
  "baseSortBy xs = foldr insertSorted xs []"

definition orderBy :: "event list \<Rightarrow> event list" where
  "orderBy events = map snd (baseSortBy (enumerate 0 events))"

subsection \<open>\<^verbatim>\<open>sortByRender\<close>\<close>

text \<open>The inner \<^verbatim>\<open>for\<close> loop skips the events that start before
  \<^verbatim>\<open>event.endMs\<close>; \<open>firstOutside\<close> is the index it stops at.\<close>

fun firstOutside :: "real \<Rightarrow> event list \<Rightarrow> nat option" where
  "firstOutside endMs [] = None"
| "firstOutside endMs (test # ts) =
     (if endMs > e_startMs test then map_option Suc (firstOutside endMs ts) else Some 0)"

text \<open>\<^verbatim>\<open>sortedByTime.splice(i, 1)\<close>.\<close>

definition splice1 :: "nat \<Rightarrow> 'a list \<Rightarrow> 'a list" where
  "splice1 i xs = take i xs @ drop (Suc i) xs"

function sortPass :: "event list \<Rightarrow> event list" where
  "sortPass [] = []"
| "sortPass (event # sortedByTime) =
     (if eventType event \<noteq> None then event # sortPass sortedByTime
      else case firstOutside (e_endMs event) sortedByTime of
        None \<Rightarrow> event # sortPass sortedByTime
      | Some i \<Rightarrow>
          if eventType (sortedByTime ! i) \<noteq> None then event # sortPass sortedByTime
          else if i > 0
            then event # (sortedByTime ! i) # sortPass (splice1 i sortedByTime)
            else event # sortPass sortedByTime)"
  by pat_completeness auto
termination
  by (relation "measure length") (auto simp: splice1_def)

definition sortByRender :: "event list \<Rightarrow> event list" where
  "sortByRender events = sortPass (orderBy events)"

section \<open>Clustering\<close>

subsection \<open>The named group matrix\<close>

type_synonym matrix = "addr option list list"

text \<open>Row 0 of a matrix: the first \<^verbatim>\<open>c < 3\<close> with \<^verbatim>\<open>!matrix[0][c]\<close>.\<close>

definition firstEmpty :: "addr option list \<Rightarrow> nat option" where
  "firstEmpty slots = find (\<lambda>c. slots ! c = None) [0, 1, 2]"

text \<open>One round of the loop over \<^verbatim>\<open>c\<close> in a row \<^verbatim>\<open>r > 0\<close>:
  \<^verbatim>\<open>matrix[r - 1][c].end\<close> of an empty slot is a \<^verbatim>\<open>TypeError\<close>.\<close>

definition scanSlot ::
  "event list \<Rightarrow> event \<Rightarrow> addr option list \<Rightarrow> addr option list \<Rightarrow> nat \<Rightarrow>
   error + (nat option \<times> real) \<Rightarrow> error + (nat option \<times> real)" where
  "scanSlot h event cur prev c acc =
     (case acc of
        Inl e \<Rightarrow> Inl e
      | Inr (bestCol, bestGap) \<Rightarrow>
          (case cur ! c of
             Some x \<Rightarrow> Inr (bestCol, bestGap)
           | None \<Rightarrow>
               (case prev ! c of
                  None \<Rightarrow> Inl TypeError
                | Some p \<Rightarrow>
                    let gap = e_start event - e_end (h ! p) in
                    if gap > bestGap then Inr (Some c, gap) else Inr (bestCol, bestGap))))"

definition bestSlot ::
  "event list \<Rightarrow> event \<Rightarrow> addr option list \<Rightarrow> addr option list \<Rightarrow>
   error + (nat option \<times> real)" where
  "bestSlot h event cur prev =
     fold (scanSlot h event cur prev) [0, 1, 2] (Inr (None, - 99999))"

definition ensureRow :: "nat \<Rightarrow> matrix \<Rightarrow> matrix" where
  "ensureRow r matrix = (if r = length matrix then matrix @ [[None, None, None]] else matrix)"

definition fullRow :: "addr option list \<Rightarrow> bool" where
  "fullRow slots = (slots ! 0 \<noteq> None \<and> slots ! 1 \<noteq> None \<and> slots ! 2 \<noteq> None)"

lemma bestSlot_empty_row:
  "bestSlot h event [None, None, None] prev = Inr x \<Longrightarrow> fullRow prev"
  by (auto simp: bestSlot_def scanSlot_def fullRow_def Let_def
      split: option.splits if_splits)

lemma firstEmpty_empty_row: "firstEmpty [None, None, None] = Some 0"
  by (simp add: firstEmpty_def)

text \<open>The loop \<^verbatim>\<open>for (let r = 0; r <= matrix.length; r++)\<close>, from row \<open>r\<close> on.
  The result is the matrix and \<^verbatim>\<open>event.column\<close>.\<close>

function placeInMatrix ::
  "event list \<Rightarrow> event \<Rightarrow> addr \<Rightarrow> matrix \<Rightarrow> nat \<Rightarrow> error + (matrix \<times> nat option)" where
  "placeInMatrix h event a matrix r =
     (if r \<le> length matrix then
        if r = 0 then
          (case firstEmpty (ensureRow r matrix ! 0) of
             Some c \<Rightarrow>
               Inr ((ensureRow r matrix)[0 := (ensureRow r matrix ! 0)[c := Some a]], Some c)
           | None \<Rightarrow> placeInMatrix h event a (ensureRow r matrix) (Suc r))
        else
          (case bestSlot h event (ensureRow r matrix ! r) (ensureRow r matrix ! (r - 1)) of
             Inl e \<Rightarrow> Inl e
           | Inr (Some c, g) \<Rightarrow>
               Inr ((ensureRow r matrix)[r := (ensureRow r matrix ! r)[c := Some a]], Some c)
           | Inr (None, g) \<Rightarrow> placeInMatrix h event a (ensureRow r matrix) (Suc r))
      else Inr (matrix, None))"
  by pat_completeness auto
termination
proof (relation "measure (\<lambda>(h, event, a, matrix, r).
    if r < length matrix then 2 + (length matrix - r)
    else if matrix \<noteq> [] \<and> fullRow (last matrix) then 1 else 0)", goal_cases)
  case 1
  show ?case by simp
next
  case (2 h event a matrix r)
  then show ?case
    by (auto simp: ensureRow_def firstEmpty_empty_row)
next
  case (3 h event a matrix r x2 x1 g)
  show ?case
  proof (cases "r = length matrix")
    case True
    with 3 have "bestSlot h event [None, None, None] (last matrix) = Inr (None, g)"
      by (simp add: ensureRow_def nth_append last_conv_nth)
    then have "fullRow (last matrix)"
      by (rule bestSlot_empty_row)
    with True 3 show ?thesis
      by (auto simp: ensureRow_def fullRow_def)
  next
    case False
    with 3 show ?thesis
      by (auto simp: ensureRow_def)
  qed
qed

declare placeInMatrix.simps [simp del]

subsection \<open>The pass over the render order\<close>

record layout =
  heap :: "event list"
  containerEvents :: "addr list"
  namedContainerEvents :: "string \<Rightarrow> matrix option"

definition onSameRow :: "event \<Rightarrow> event \<Rightarrow> real \<Rightarrow> bool" where
  "onSameRow a b minimumStartDifference =
     (\<bar>e_start b - e_start a\<bar> < minimumStartDifference \<or>
      (e_start b > e_start a \<and> e_start b < e_end a))"

text \<open>The test of \<^verbatim>\<open>containerEvents.find\<close>.\<close>

definition accepts :: "real \<Rightarrow> event \<Rightarrow> event \<Rightarrow> bool" where
  "accepts minimumStartDifference event c =
     (e_end c > e_start event \<or> \<bar>e_start event - e_start c\<bar> < minimumStartDifference)"

text \<open>One round of the loop of \<^verbatim>\<open>getStyledEvents\<close>, for the event at address
  \<open>i\<close>. The assignments are made in the order of the source.\<close>

definition placeEvent :: "real \<Rightarrow> layout \<Rightarrow> addr \<Rightarrow> error + layout" where
  "placeEvent msd st i =
     (let h = heap st; event = h ! i in
      case eventType event of
        Some k \<Rightarrow>
          (case namedContainerEvents st k of
             None \<Rightarrow>
               Inr (st\<lparr> heap := h[i := event\<lparr> e_column := Some 0 \<rparr>],
                        namedContainerEvents :=
                          (namedContainerEvents st)(k \<mapsto> [[Some i, None, None]]) \<rparr>)
           | Some matrix \<Rightarrow>
               (case placeInMatrix h event i matrix 0 of
                  Inl e \<Rightarrow> Inl e
                | Inr (matrix', col) \<Rightarrow>
                    Inr (st\<lparr> heap := h[i := event\<lparr> e_column := col \<rparr>],
                             namedContainerEvents :=
                               (namedContainerEvents st)(k \<mapsto> matrix') \<rparr>)))
      | None \<Rightarrow>
          (case find (\<lambda>c. accepts msd event (h ! c)) (containerEvents st) of
             None \<Rightarrow>
               Inr (st\<lparr> heap := h[i := event\<lparr> e_rows := Some [] \<rparr>],
                        containerEvents := containerEvents st @ [i] \<rparr>)
           | Some c \<Rightarrow>
               (let h1 = h[i := event\<lparr> e_container := Some c \<rparr>] in
                case e_rows (h1 ! c) of
                  None \<Rightarrow> Inl TypeError
                | Some rows \<Rightarrow>
                    (case find (\<lambda>r. onSameRow (h1 ! r) event msd) (rev rows) of
                       Some r \<Rightarrow>
                         (case e_leaves (h1 ! r) of
                            None \<Rightarrow> Inl TypeError
                          | Some ls \<Rightarrow>
                              (let h2 = h1[r := (h1 ! r)\<lparr> e_leaves := Some (ls @ [i]) \<rparr>];
                                   h3 = h2[i := (h2 ! i)\<lparr> e_row := Some r \<rparr>]
                               in Inr (st\<lparr> heap := h3 \<rparr>)))
                     | None \<Rightarrow>
                         (let h2 = h1[i := (h1 ! i)\<lparr> e_leaves := Some [] \<rparr>];
                              h3 = h2[c := (h2 ! c)\<lparr> e_rows := Some (rows @ [i]) \<rparr>]
                          in Inr (st\<lparr> heap := h3 \<rparr>))))))"

fun clusterFrom :: "real \<Rightarrow> addr list \<Rightarrow> layout \<Rightarrow> error + layout" where
  "clusterFrom msd [] st = Inr st"
| "clusterFrom msd (i # rest) st =
     (case placeEvent msd st i of
        Inl e \<Rightarrow> Inl e
      | Inr st' \<Rightarrow> clusterFrom msd rest st')"

definition emptyLayout :: "event list \<Rightarrow> layout" where
  "emptyLayout events =
     \<lparr> heap = events, containerEvents = [], namedContainerEvents = (\<lambda>k. None) \<rparr>"

definition cluster :: "real \<Rightarrow> event list \<Rightarrow> error + layout" where
  "cluster msd eventsInRenderOrder =
     clusterFrom msd [0..<length eventsInRenderOrder] (emptyLayout eventsInRenderOrder)"

section \<open>Derived geometry\<close>

text \<open>Division of two numbers. JavaScript yields \<^verbatim>\<open>Infinity\<close> or
  \<^verbatim>\<open>NaN\<close> for a zero divisor; the reals have neither, so that outcome is the
  value \<open>Inl NonFinite\<close>.\<close>

definition jsDiv :: "real \<Rightarrow> real \<Rightarrow> error + real" where
  "jsDiv a b = (if b = 0 then Inl NonFinite else Inr (a / b))"

text \<open>\<^verbatim>\<open>this.rows.reduce((max, row) => Math.max(max, row.leaves.length + 1), 0)\<close>.\<close>

fun maxRowSize :: "event list \<Rightarrow> addr list \<Rightarrow> nat \<Rightarrow> error + nat" where
  "maxRowSize h [] mx = Inr mx"
| "maxRowSize h (row # rows) mx =
     (case e_leaves (h ! row) of
        None \<Rightarrow> Inl TypeError
      | Some ls \<Rightarrow> maxRowSize h rows (max mx (length ls + 1)))"

text \<open>\<^verbatim>\<open>get _width()\<close>. The getter calls itself on \<^verbatim>\<open>this.container\<close>
  and \<^verbatim>\<open>this.row\<close>; \<open>depth\<close> bounds the nesting of these calls, and
  running out of it is the \<^verbatim>\<open>RangeError\<close> of an exhausted call stack.\<close>

fun widthRec :: "nat \<Rightarrow> event list \<Rightarrow> addr \<Rightarrow> error + dimension" where
  "widthRec 0 h this = Inl RangeError"
| "widthRec (Suc depth) h this =
     (case p_width (e_data (h ! this)) of
        Some w \<Rightarrow> Inr w
      | None \<Rightarrow>
          (case e_rows (h ! this) of
             Some rows \<Rightarrow>
               (case maxRowSize h rows 0 of
                  Inl e \<Rightarrow> Inl e
                | Inr mx \<Rightarrow>
                    (case jsDiv 100 (real (mx + 1)) of
                       Inl e \<Rightarrow> Inl e
                     | Inr v \<Rightarrow> Inr \<lparr> d_value = v, d_unit = ''%'' \<rparr>))
           | None \<Rightarrow>
               (case e_container (h ! this) of
                  None \<Rightarrow> Inl TypeError
                | Some c \<Rightarrow>
                    (case widthRec depth h c of
                       Inl e \<Rightarrow> Inl e
                     | Inr cw \<Rightarrow>
                         (let availableWidth = 100 - d_value cw in
                          case e_leaves (h ! this) of
                            Some ls \<Rightarrow>
                              (case jsDiv availableWidth (real (length ls + 1)) of
                                 Inl e \<Rightarrow> Inl e
                               | Inr v \<Rightarrow> Inr \<lparr> d_value = v, d_unit = ''%'' \<rparr>)
                          | None \<Rightarrow>
                              (case e_row (h ! this) of
                                 None \<Rightarrow> Inl TypeError
                               | Some r \<Rightarrow> widthRec depth h r))))))"

text \<open>A chain of more than \<open>length h\<close> nested calls visits an address twice and
  never ends, so this depth loses no result.\<close>

definition effectiveWidth :: "event list \<Rightarrow> addr \<Rightarrow> error + dimension" where
  "effectiveWidth h this = widthRec (length h + 3) h this"

text \<open>\<^verbatim>\<open>leaves.indexOf(this)\<close>.\<close>

fun indexOf :: "addr list \<Rightarrow> addr \<Rightarrow> int" where
  "indexOf [] a = - 1"
| "indexOf (x # xs) a =
     (if x = a then 0 else let k = indexOf xs a in if k < 0 then - 1 else k + 1)"

text \<open>\<^verbatim>\<open>get width()\<close>.\<close>

definition width :: "event list \<Rightarrow> addr \<Rightarrow> error + dimension" where
  "width h this =
     (case effectiveWidth h this of
        Inl e \<Rightarrow> Inl e
      | Inr noOverlap \<Rightarrow>
          if d_unit noOverlap \<noteq> ''%'' then Inr noOverlap
          else
            (let overlap = \<lparr> d_value = min 100 (d_value noOverlap * 1.7),
                             d_unit = d_unit noOverlap \<rparr> in
             case e_rows (h ! this) of
               Some rows \<Rightarrow> Inr overlap
             | None \<Rightarrow>
                 (case e_leaves (h ! this) of
                    Some ls \<Rightarrow> Inr (if length ls > 0 then overlap else noOverlap)
                  | None \<Rightarrow>
                      (case e_row (h ! this) of
                         None \<Rightarrow> Inl TypeError
                       | Some r \<Rightarrow>
                           (case e_leaves (h ! r) of
                              None \<Rightarrow> Inl TypeError
                            | Some leaves \<Rightarrow>
                                Inr (if indexOf leaves this = int (length leaves) - 1
                                     then noOverlap else overlap))))))"

text \<open>\<^verbatim>\<open>get xOffset()\<close>, which calls itself on \<^verbatim>\<open>this.row\<close>.\<close>

fun xOffsetRec :: "nat \<Rightarrow> event list \<Rightarrow> addr \<Rightarrow> error + dimension" where
  "xOffsetRec 0 h this = Inl RangeError"
| "xOffsetRec (Suc depth) h this =
     (case e_rows (h ! this) of
        Some rows \<Rightarrow> Inr \<lparr> d_value = 0, d_unit = [] \<rparr>
      | None \<Rightarrow>
          (case e_column (h ! this) of
             Some column \<Rightarrow>
               (case effectiveWidth h this of
                  Inl e \<Rightarrow> Inl e
                | Inr w \<Rightarrow>
                    Inr \<lparr> d_value = (d_value w + 2) * real column, d_unit = d_unit w \<rparr>)
           | None \<Rightarrow>
               (case e_leaves (h ! this) of
                  Some ls \<Rightarrow>
                    (case e_container (h ! this) of
                       None \<Rightarrow> Inl TypeError
                     | Some c \<Rightarrow>
                         (case effectiveWidth h c of
                            Inl e \<Rightarrow> Inl e
                          | Inr containerWidth \<Rightarrow>
                              if d_unit containerWidth = ''px''
                              then Inr \<lparr> d_value = d_value containerWidth + 2,
                                         d_unit = d_unit containerWidth \<rparr>
                              else Inr containerWidth))
                | None \<Rightarrow>
                    (case e_row (h ! this) of
                       None \<Rightarrow> Inl TypeError
                     | Some r \<Rightarrow>
                         (case xOffsetRec depth h r of
                            Inl e \<Rightarrow> Inl e
                          | Inr rowOffset \<Rightarrow>
                              (case effectiveWidth h r of
                                 Inl e \<Rightarrow> Inl e
                               | Inr rowWidth \<Rightarrow>
                                   (case e_leaves (h ! r) of
                                      None \<Rightarrow> Inl TypeError
                                    | Some leaves \<Rightarrow>
                                        (let offset =
                                               (if d_unit rowWidth = ''px''
                                                then d_value rowOffset + 2
                                                else d_value rowOffset);
                                             index = indexOf leaves this + 1
                                         in Inr \<lparr> d_value =
                                                     offset + real_of_int index * d_value rowWidth,
                                                   d_unit = d_unit rowWidth \<rparr>))))))))"

definition xOffset :: "event list \<Rightarrow> addr \<Rightarrow> error + dimension" where
  "xOffset h this = xOffsetRec (length h + 3) h this"

section \<open>\<^verbatim>\<open>getStyledEvents\<close>\<close>

record style =
  s_top :: real
  s_height :: real
  s_width :: dimension
  s_xOffset :: dimension

definition styleOf :: "event list \<Rightarrow> addr \<Rightarrow> error + (payload \<times> style)" where
  "styleOf h i =
     (case width h i of
        Inl e \<Rightarrow> Inl e
      | Inr w \<Rightarrow>
          (case xOffset h i of
             Inl e \<Rightarrow> Inl e
           | Inr x \<Rightarrow>
               Inr (e_data (h ! i),
                    \<lparr> s_top = e_top (h ! i), s_height = e_height (h ! i),
                      s_width = w, s_xOffset = x \<rparr>)))"

text \<open>\<^verbatim>\<open>array.map(f)\<close> for an \<open>f\<close> that may throw.\<close>

fun mapE :: "('a \<Rightarrow> error + 'b) \<Rightarrow> 'a list \<Rightarrow> error + 'b list" where
  "mapE f [] = Inr []"
| "mapE f (x # xs) =
     (case f x of
        Inl e \<Rightarrow> Inl e
      | Inr y \<Rightarrow> (case mapE f xs of Inl e \<Rightarrow> Inl e | Inr ys \<Rightarrow> Inr (y # ys)))"

definition getStyledEvents ::
  "real \<Rightarrow> (payload \<Rightarrow> range) \<Rightarrow> payload list \<Rightarrow> error + (payload \<times> style) list" where
  "getStyledEvents minimumStartDifference locate events =
     (let proxies = map (newEvent locate) events;
          eventsInRenderOrder = sortByRender proxies
      in case cluster minimumStartDifference eventsInRenderOrder of
           Inl e \<Rightarrow> Inl e
         | Inr st \<Rightarrow> mapE (styleOf (heap st)) [0..<length eventsInRenderOrder])"

section \<open>Properties of the getters\<close>

subsection \<open>Divisors\<close>














definition dayRange :: "real \<Rightarrow> real \<Rightarrow> range" where
  "dayRange s e =
     \<lparr> r_start = s, r_end = e, r_startMs = s, r_endMs = e, r_top = s, r_height = e - s \<rparr>"


subsection \<open>The fixed width\<close>

text \<open>
  Claim C10. The fixed-width override applies to every event whose payload has a
  \<^verbatim>\<open>width\<close>, grouped or not and whatever its relationship fields are:
  \<^verbatim>\<open>_width\<close> is that width unchanged, and when its unit is not \<open>%\<close> the final
  \<^verbatim>\<open>width\<close> is that width unchanged as well (no growth by 1.7, no cap at 100).
\<close>

theorem fixed_width_override:
  assumes "p_width (e_data (h ! this)) = Some w"
  shows "effectiveWidth h this = Inr w
    \<and> (d_unit w \<noteq> ''%'' \<longrightarrow> width h this = Inr w)"
  using assms
  by (simp add: effectiveWidth_def width_def numeral_3_eq_3)

definition pxEvent :: event where
  "pxEvent =
     \<lparr> e_start = 0, e_end = 10, e_startMs = 0, e_endMs = 10, e_top = 0, e_height = 10,
       e_data = \<lparr> p_id = 0, p_width = Some \<lparr> d_value = 90, d_unit = ''px'' \<rparr>,
                  p_eventType = None \<rparr>,
       e_rows = Some [], e_leaves = None, e_container = None, e_row = None,
       e_column = None \<rparr>"

theorem fixed_width_override_witness:
  "effectiveWidth [pxEvent] 0 = Inr \<lparr> d_value = 90, d_unit = ''px'' \<rparr>
   \<and> width [pxEvent] 0 = Inr \<lparr> d_value = 90, d_unit = ''px'' \<rparr>"
  using fixed_width_override [of "[pxEvent]" 0 "\<lparr> d_value = 90, d_unit = ''px'' \<rparr>"]
  by (simp add: pxEvent_def)

section \<open>Properties of the render order\<close>

subsection \<open>The order of the three criteria\<close>

text \<open>The order \<^verbatim>\<open>orderBy\<close> sorts by, written out: an ungrouped event comes before
  a grouped one (\<^verbatim>\<open>null\<close> is the greatest key and the order of the first
  criterion is descending), a greater key before a smaller one, then the earlier start,
  then the later end.\<close>

definition timeBefore :: "event \<Rightarrow> event \<Rightarrow> bool" where
  "timeBefore a b =
     (e_startMs a < e_startMs b \<or> (e_startMs a = e_startMs b \<and> e_endMs a > e_endMs b))"

definition renderBefore :: "event \<Rightarrow> event \<Rightarrow> bool" where
  "renderBefore a b =
     (case eventType a of
        None \<Rightarrow> (case eventType b of None \<Rightarrow> timeBefore a b | Some kb \<Rightarrow> True)
      | Some ka \<Rightarrow>
          (case eventType b of
             None \<Rightarrow> False
           | Some kb \<Rightarrow> ka > kb \<or> (ka = kb \<and> timeBefore a b)))"

definition sortKey :: "event \<Rightarrow> string option \<times> real \<times> real" where
  "sortKey e = (eventType e, e_startMs e, e_endMs e)"

lemma compareMultiple_less_iff:
  "compareMultiple x y < 0 \<longleftrightarrow>
     renderBefore (snd x) (snd y) \<or> (sortKey (snd x) = sortKey (snd y) \<and> fst x < fst y)"
  by (auto simp: compareMultiple_def compareAscendingNull_def compareAscending_def
      renderBefore_def timeBefore_def sortKey_def Let_def split: option.splits if_splits)

lemma timeBefore_trans: "timeBefore a b \<Longrightarrow> timeBefore b c \<Longrightarrow> timeBefore a c"
  unfolding timeBefore_def by linarith

lemma timeBefore_asym: "timeBefore a b \<Longrightarrow> \<not> timeBefore b a"
  unfolding timeBefore_def by linarith

lemma timeBefore_total:
  "e_startMs a \<noteq> e_startMs b \<or> e_endMs a \<noteq> e_endMs b \<Longrightarrow> timeBefore a b \<or> timeBefore b a"
  unfolding timeBefore_def by linarith

lemma timeBefore_cong:
  "e_startMs a = e_startMs a' \<Longrightarrow> e_endMs a = e_endMs a' \<Longrightarrow>
   e_startMs b = e_startMs b' \<Longrightarrow> e_endMs b = e_endMs b' \<Longrightarrow>
   timeBefore a b = timeBefore a' b'"
  unfolding timeBefore_def by simp

lemma renderBefore_trans: "renderBefore a b \<Longrightarrow> renderBefore b c \<Longrightarrow> renderBefore a c"
  by (cases "eventType a"; cases "eventType b"; cases "eventType c")
    (auto simp: renderBefore_def dest: timeBefore_trans)

lemma renderBefore_asym: "renderBefore a b \<Longrightarrow> \<not> renderBefore b a"
  by (cases "eventType a"; cases "eventType b")
    (auto simp: renderBefore_def dest: timeBefore_asym)

lemma renderBefore_key: "renderBefore a b \<Longrightarrow> sortKey a \<noteq> sortKey b"
  by (cases "eventType a"; cases "eventType b")
    (auto simp: renderBefore_def sortKey_def timeBefore_def)

lemma renderBefore_key_left:
  assumes "sortKey a = sortKey a'"
  shows "renderBefore a b = renderBefore a' b"
proof -
  from assms have "eventType a = eventType a'" "e_startMs a = e_startMs a'"
    "e_endMs a = e_endMs a'"
    by (simp_all add: sortKey_def)
  moreover from this have "timeBefore a b = timeBefore a' b"
    by (simp add: timeBefore_def)
  ultimately show ?thesis
    by (simp add: renderBefore_def split: option.split)
qed

lemma renderBefore_key_right:
  assumes "sortKey b = sortKey b'"
  shows "renderBefore a b = renderBefore a b'"
proof -
  from assms have "eventType b = eventType b'" "e_startMs b = e_startMs b'"
    "e_endMs b = e_endMs b'"
    by (simp_all add: sortKey_def)
  moreover from this have "timeBefore a b = timeBefore a b'"
    by (simp add: timeBefore_def)
  ultimately show ?thesis
    by (simp add: renderBefore_def split: option.split)
qed

lemma less_trans_cm:
  assumes "compareMultiple x y < 0" and "compareMultiple y z < 0"
  shows "compareMultiple x z < 0"
proof -
  from assms(1) consider (r) "renderBefore (snd x) (snd y)"
    | (i) "sortKey (snd x) = sortKey (snd y)" "fst x < fst y"
    by (auto simp: compareMultiple_less_iff)
  then show ?thesis
  proof cases
    case r
    from assms(2) consider (r') "renderBefore (snd y) (snd z)"
      | (i') "sortKey (snd y) = sortKey (snd z)" "fst y < fst z"
      by (auto simp: compareMultiple_less_iff)
    then have "renderBefore (snd x) (snd z)"
    proof cases
      case r'
      with r show ?thesis by (rule renderBefore_trans)
    next
      case i'
      with r show ?thesis by (simp add: renderBefore_key_right [OF i'(1)])
    qed
    then show ?thesis by (simp add: compareMultiple_less_iff)
  next
    case i
    from assms(2) consider (r') "renderBefore (snd y) (snd z)"
      | (i') "sortKey (snd y) = sortKey (snd z)" "fst y < fst z"
      by (auto simp: compareMultiple_less_iff)
    then show ?thesis
    proof cases
      case r'
      then have "renderBefore (snd x) (snd z)"
        by (simp add: renderBefore_key_left [OF i(1)])
      then show ?thesis by (simp add: compareMultiple_less_iff)
    next
      case i'
      with i show ?thesis by (simp add: compareMultiple_less_iff)
    qed
  qed
qed

lemma less_asym_cm:
  assumes "compareMultiple x y < 0"
  shows "\<not> compareMultiple y x < 0"
proof -
  from assms consider (r) "renderBefore (snd x) (snd y)"
    | (i) "sortKey (snd x) = sortKey (snd y)" "fst x < fst y"
    by (auto simp: compareMultiple_less_iff)
  then show ?thesis
  proof cases
    case r
    then have "\<not> renderBefore (snd y) (snd x)" and "sortKey (snd y) \<noteq> sortKey (snd x)"
      using renderBefore_asym renderBefore_key by fastforce+
    then show ?thesis by (simp add: compareMultiple_less_iff)
  next
    case i
    then have "\<not> renderBefore (snd y) (snd x)"
      using renderBefore_key [of "snd y" "snd x"] by auto
    with i show ?thesis by (simp add: compareMultiple_less_iff)
  qed
qed

subsection \<open>The sort\<close>

lemma set_insertSorted: "set (insertSorted x ys) = insert x (set ys)"
  by (induction ys) auto

lemma mset_insertSorted: "mset (insertSorted x ys) = add_mset x (mset ys)"
  by (induction ys) auto

lemma mset_baseSortBy: "mset (baseSortBy xs) = mset xs"
  by (induction xs) (simp_all add: baseSortBy_def mset_insertSorted)

lemma set_baseSortBy: "set (baseSortBy xs) = set xs"
  by (metis mset_baseSortBy set_mset_mset)

lemma sorted_insertSorted:
  "sorted_wrt (\<lambda>a b. \<not> compareMultiple b a < 0) ys \<Longrightarrow>
   sorted_wrt (\<lambda>a b. \<not> compareMultiple b a < 0) (insertSorted x ys)"
proof (induction ys)
  case Nil
  show ?case by simp
next
  case (Cons y ys)
  show ?case
  proof (cases "compareMultiple x y < 0")
    case True
    have "\<not> compareMultiple z x < 0" if "z \<in> set (y # ys)" for z
    proof
      assume zx: "compareMultiple z x < 0"
      then have zy: "compareMultiple z y < 0"
        using True by (rule less_trans_cm)
      show False
      proof (cases "z = y")
        case True
        with zy show False using less_asym_cm by blast
      next
        case False
        with that have "z \<in> set ys" by simp
        with Cons.prems have "\<not> compareMultiple z y < 0" by simp
        with zy show False by simp
      qed
    qed
    with True Cons.prems show ?thesis by simp
  next
    case False
    with Cons show ?thesis
      by (auto simp: set_insertSorted)
  qed
qed

lemma sorted_baseSortBy: "sorted_wrt (\<lambda>a b. \<not> compareMultiple b a < 0) (baseSortBy xs)"
  by (induction xs) (simp_all add: baseSortBy_def sorted_insertSorted)

lemma filter_insertSorted:
  assumes "P x \<Longrightarrow> \<forall>y \<in> set ys. P y \<longrightarrow> compareMultiple x y < 0"
  shows "filter P (insertSorted x ys) = (if P x then x # filter P ys else filter P ys)"
  using assms by (induction ys) auto

lemma stable_baseSortBy:
  assumes "sorted_wrt (<) (map fst ds)"
  shows "filter (\<lambda>d. sortKey (snd d) = k) (baseSortBy ds) = filter (\<lambda>d. sortKey (snd d) = k) ds"
  using assms
proof (induction ds)
  case Nil
  show ?case by (simp add: baseSortBy_def)
next
  case (Cons x ds)
  have step: "baseSortBy (x # ds) = insertSorted x (baseSortBy ds)"
    by (simp add: baseSortBy_def)
  have "\<forall>y \<in> set (baseSortBy ds). sortKey (snd y) = k \<longrightarrow> compareMultiple x y < 0"
    if "sortKey (snd x) = k"
    using Cons.prems that by (auto simp: set_baseSortBy compareMultiple_less_iff)
  then show ?case
    using Cons by (simp add: step filter_insertSorted)
qed

lemma sorted_fst_enumerate: "sorted_wrt (<) (map fst (enumerate n xs))"
  by (simp add: enumerate_eq_zip sorted_wrt_iff_nth_less)

lemma mset_orderBy: "mset (orderBy events) = mset events"
proof -
  have "mset (orderBy events) = image_mset snd (mset (enumerate 0 events))"
    by (simp only: orderBy_def mset_map mset_baseSortBy)
  also have "\<dots> = mset (map snd (enumerate 0 events))"
    by (simp only: mset_map)
  finally show ?thesis
    by (simp only: map_snd_enumerate)
qed

lemma sorted_orderBy: "sorted_wrt (\<lambda>a b. \<not> renderBefore b a) (orderBy events)"
proof -
  have "sorted_wrt (\<lambda>a b. \<not> renderBefore (snd b) (snd a)) (baseSortBy (enumerate 0 events))"
    by (rule sorted_wrt_mono_rel [OF _ sorted_baseSortBy])
      (simp add: compareMultiple_less_iff)
  then show ?thesis
    by (simp add: orderBy_def sorted_wrt_map)
qed

lemma stable_orderBy:
  "filter (\<lambda>e. sortKey e = k) (orderBy events) = filter (\<lambda>e. sortKey e = k) events"
proof -
  have "filter (\<lambda>e. sortKey e = k) (orderBy events)
      = map snd (filter (\<lambda>d. sortKey (snd d) = k) (baseSortBy (enumerate 0 events)))"
    by (simp add: orderBy_def filter_map comp_def)
  also have "\<dots> = map snd (filter (\<lambda>d. sortKey (snd d) = k) (enumerate 0 events))"
    by (simp add: stable_baseSortBy sorted_fst_enumerate)
  also have "\<dots> = filter (\<lambda>e. sortKey e = k) (map snd (enumerate 0 events))"
    by (simp only: filter_map comp_def)
  finally show ?thesis
    by (simp only: map_snd_enumerate)
qed

subsection \<open>The reordering pass\<close>

lemma firstOutside_Some:
  "firstOutside endMs xs = Some i \<Longrightarrow>
     i < length xs \<and> \<not> endMs > e_startMs (xs ! i) \<and> (\<forall>j<i. endMs > e_startMs (xs ! j))"
proof (induction xs arbitrary: i)
  case Nil
  then show ?case by simp
next
  case (Cons x xs)
  show ?case
  proof (cases "endMs > e_startMs x")
    case True
    with Cons.prems obtain i' where i': "firstOutside endMs xs = Some i'" "i = Suc i'"
      by auto
    from Cons.IH [OF i'(1)] True i'(2) show ?thesis
      by (auto simp: less_Suc_eq_0_disj)
  next
    case False
    with Cons.prems show ?thesis by simp
  qed
qed

lemma filter_splice:
  assumes i: "i < length xs" and none: "P (xs ! i) \<Longrightarrow> \<forall>j<i. \<not> P (xs ! j)"
  shows "filter P (xs ! i # splice1 i xs) = filter P xs"
proof -
  have xs: "xs = take i xs @ xs ! i # drop (Suc i) xs"
    using i by (simp add: id_take_nth_drop)
  have "filter P (take i xs) = []" if "P (xs ! i)"
    using none [OF that] i by (auto simp: filter_empty_conv in_set_conv_nth)
  then have "filter P (xs ! i # splice1 i xs) = filter P (take i xs @ xs ! i # drop (Suc i) xs)"
    by (simp add: splice1_def)
  with xs show ?thesis by simp
qed

lemma sortPass_shape [case_names Nil keep splice]:
  assumes "Q []"
    and "\<And>event rest. sortPass (event # rest) = event # sortPass rest \<Longrightarrow> Q rest
          \<Longrightarrow> Q (event # rest)"
    and "\<And>event rest i. i < length rest \<Longrightarrow> 0 < i \<Longrightarrow> eventType event = None
          \<Longrightarrow> eventType (rest ! i) = None
          \<Longrightarrow> \<not> e_endMs event > e_startMs (rest ! i)
          \<Longrightarrow> \<forall>j<i. e_endMs event > e_startMs (rest ! j)
          \<Longrightarrow> sortPass (event # rest) = event # rest ! i # sortPass (splice1 i rest)
          \<Longrightarrow> Q (splice1 i rest) \<Longrightarrow> Q (event # rest)"
  shows "Q xs"
proof (induction xs rule: sortPass.induct)
  case 1
  show ?case by (rule assms(1))
next
  case (2 event rest)
  show ?case
  proof (cases "eventType event")
    case (Some k)
    with 2(1) show ?thesis by (intro assms(2)) simp_all
  next
    case None
    show ?thesis
    proof (cases "firstOutside (e_endMs event) rest")
      case no: None
      with None 2(2) show ?thesis by (intro assms(2)) simp_all
    next
      case (Some i)
      note fo = firstOutside_Some [OF Some]
      show ?thesis
      proof (cases "eventType (rest ! i)")
        case grouped: (Some k)
        with None Some 2(3) show ?thesis by (intro assms(2)) simp_all
      next
        case ungrouped: None
        show ?thesis
        proof (cases "i > 0")
          case True
          with None Some ungrouped fo 2(4) show ?thesis
            by (intro assms(3) [of i]) simp_all
        next
          case False
          with None Some ungrouped 2(5) show ?thesis by (intro assms(2)) simp_all
        qed
      qed
    qed
  qed
qed

lemma sortPass_stable:
  assumes P: "\<And>e. P e \<Longrightarrow> e_startMs e = s"
  shows "filter P (sortPass xs) = filter P xs"
proof (induction xs rule: sortPass_shape)
  case Nil
  show ?case by simp
next
  case (keep event rest)
  then show ?case by simp
next
  case (splice event rest i)
  have "\<forall>j<i. \<not> P (rest ! j)" if "P (rest ! i)"
  proof (intro allI impI notI)
    fix j assume "j < i" "P (rest ! j)"
    then have "e_startMs (rest ! j) = e_startMs (rest ! i)"
      using P that by simp
    with splice \<open>j < i\<close> show False by auto
  qed
  then have "filter P (rest ! i # splice1 i rest) = filter P rest"
    using splice(1) by (rule filter_splice [rotated])
  then show ?case
    using splice by (auto split: if_splits)
qed

lemma mset_splice1: "i < length xs \<Longrightarrow> add_mset (xs ! i) (mset (splice1 i xs)) = mset xs"
proof -
  assume i: "i < length xs"
  have "mset xs = mset (take i xs @ xs ! i # drop (Suc i) xs)"
    using i by (simp add: id_take_nth_drop [symmetric])
  then show ?thesis by (simp add: splice1_def)
qed

lemma mset_sortPass: "mset (sortPass xs) = mset xs"
proof (induction xs rule: sortPass_shape)
  case Nil
  show ?case by simp
next
  case (keep event rest)
  then show ?case by simp
next
  case (splice event rest i)
  then show ?case
    using mset_splice1 [of i rest] by simp
qed

lemma mset_sortByRender: "mset (sortByRender events) = mset events"
  by (simp add: sortByRender_def mset_sortPass mset_orderBy)

lemma set_sortByRender: "set (sortByRender events) = set events"
  by (metis mset_sortByRender set_mset_mset)


lemma sortByRender_stable:
  "filter (\<lambda>e. sortKey e = k) (sortByRender events) = filter (\<lambda>e. sortKey e = k) events"
proof -
  have "filter (\<lambda>e. sortKey e = k) (sortPass (orderBy events))
      = filter (\<lambda>e. sortKey e = k) (orderBy events)"
    by (rule sortPass_stable [where s = "fst (snd k)"]) (auto simp: sortKey_def)
  then show ?thesis
    by (simp add: sortByRender_def stable_orderBy)
qed

subsection \<open>The output follows the render order\<close>

text \<open>The fields of a proxy that clustering never assigns.\<close>

definition static :: "event \<Rightarrow> real \<times> real \<times> real \<times> real \<times> real \<times> real \<times> payload" where
  "static e = (e_start e, e_end e, e_startMs e, e_endMs e, e_top e, e_height e, e_data e)"

lemma static_update [simp]:
  "static (e\<lparr> e_rows := a \<rparr>) = static e"
  "static (e\<lparr> e_leaves := b \<rparr>) = static e"
  "static (e\<lparr> e_container := c \<rparr>) = static e"
  "static (e\<lparr> e_row := d \<rparr>) = static e"
  "static (e\<lparr> e_column := f \<rparr>) = static e"
  by (simp_all add: static_def)

lemma map_static_update:
  "static x = static (h ! i) \<Longrightarrow> map static (h[i := x]) = map static h"
  by (metis map_update list_update_id)

lemma placeEvent_static:
  assumes "placeEvent msd st i = Inr st'" and "i < length (heap st)"
  shows "map static (heap st') = map static (heap st)"
  using assms
  by (auto simp: placeEvent_def Let_def map_static_update nth_list_update
      split: option.splits sum.splits prod.splits if_splits)

lemma clusterFrom_static:
  "clusterFrom msd is st = Inr st' \<Longrightarrow> \<forall>i \<in> set is. i < length (heap st) \<Longrightarrow>
     map static (heap st') = map static (heap st)"
proof (induction "is" arbitrary: st)
  case Nil
  then show ?case by simp
next
  case (Cons i rest)
  from Cons.prems obtain st1 where st1: "placeEvent msd st i = Inr st1"
    and rest: "clusterFrom msd rest st1 = Inr st'"
    by (auto split: sum.splits)
  have eq: "map static (heap st1) = map static (heap st)"
    using st1 Cons.prems(2) by (simp add: placeEvent_static)
  then have "length (heap st1) = length (heap st)"
    by (rule map_eq_imp_length_eq)
  with Cons.prems(2) have "\<forall>i \<in> set rest. i < length (heap st1)"
    by simp
  with Cons.IH [OF rest] eq show ?case by simp
qed

lemma cluster_static:
  assumes "cluster msd events = Inr st"
  shows "map static (heap st) = map static events"
  using clusterFrom_static [OF assms [unfolded cluster_def]]
  by (simp add: emptyLayout_def)

lemma cluster_length: "cluster msd events = Inr st \<Longrightarrow> length (heap st) = length events"
  by (drule cluster_static) (rule map_eq_imp_length_eq)

lemma data_static: "e_data e = snd (snd (snd (snd (snd (snd (static e))))))"
  by (simp add: static_def)

lemma cluster_data:
  assumes "cluster msd events = Inr st"
  shows "map e_data (heap st) = map e_data events"
proof -
  have "map e_data xs = map (\<lambda>t. snd (snd (snd (snd (snd (snd t)))))) (map static xs)" for xs
    by (simp add: data_static)
  then show ?thesis
    by (simp only: cluster_static [OF assms])
qed

lemma mapE_map:
  assumes "\<And>x y. f x = Inr y \<Longrightarrow> g y = k x"
  shows "mapE f xs = Inr ys \<Longrightarrow> map g ys = map k xs"
  by (induction xs arbitrary: ys) (auto split: sum.splits dest: assms)

lemma styleOf_data: "styleOf h i = Inr y \<Longrightarrow> fst y = e_data (h ! i)"
  by (auto simp: styleOf_def split: sum.splits)

lemma getStyledEvents_order:
  assumes "getStyledEvents msd locate events = Inr out"
  shows "map fst out = map e_data (sortByRender (map (newEvent locate) events))"
proof -
  define order where "order = sortByRender (map (newEvent locate) events)"
  have gs: "getStyledEvents msd locate events =
      (case cluster msd order of
         Inl e \<Rightarrow> Inl e
       | Inr st \<Rightarrow> mapE (styleOf (heap st)) [0..<length order])"
    by (simp only: getStyledEvents_def Let_def order_def)
  show ?thesis
  proof (cases "cluster msd order")
    case (Inl e)
    with gs assms show ?thesis by simp
  next
    case (Inr st)
    with gs assms have out: "mapE (styleOf (heap st)) [0..<length order] = Inr out"
      by simp
    have "map fst out = map (\<lambda>i. e_data (heap st ! i)) [0..<length order]"
      using out by (rule mapE_map [rotated]) (rule styleOf_data)
    also have "\<dots> = map (\<lambda>i. e_data (heap st ! i)) [0..<length (heap st)]"
      by (simp only: cluster_length [OF Inr])
    also have "\<dots> = map e_data (map ((!) (heap st)) [0..<length (heap st)])"
      by (simp only: map_map comp_def)
    also have "\<dots> = map e_data (heap st)"
      by (simp only: map_nth)
    also have "\<dots> = map e_data order"
      by (rule cluster_data [OF Inr])
    finally show ?thesis
      by (simp only: order_def)
  qed
qed

lemma data_newEvent: "e_data (newEvent locate d) = d"
  by (simp add: newEvent_def Let_def)

section \<open>Concrete events\<close>

text \<open>Payloads and a coordinate mapping for the instances below: the payload with
  identity \<open>n\<close> runs from \<open>fst (ts ! n)\<close> to \<open>snd (ts ! n)\<close>, in
  placement space as in time.\<close>

definition during :: "(real \<times> real) list \<Rightarrow> payload \<Rightarrow> range" where
  "during ts d = (case ts ! p_id d of (s, e) \<Rightarrow> dayRange s e)"

definition plain :: "nat \<Rightarrow> payload" where
  "plain n = \<lparr> p_id = n, p_width = None, p_eventType = None \<rparr>"


definition grouped :: "nat \<Rightarrow> string \<Rightarrow> dimension \<Rightarrow> payload" where
  "grouped n k w = \<lparr> p_id = n, p_width = Some w, p_eventType = Some k \<rparr>"

definition pct :: "real \<Rightarrow> dimension" where
  "pct v = \<lparr> d_value = v, d_unit = ''%'' \<rparr>"

definition px :: "real \<Rightarrow> dimension" where
  "px v = \<lparr> d_value = v, d_unit = ''px'' \<rparr>"

definition styled :: "payload \<Rightarrow> real \<Rightarrow> real \<Rightarrow> dimension \<Rightarrow> dimension \<Rightarrow> payload \<times> style" where
  "styled d t hgt w x = (d, \<lparr> s_top = t, s_height = hgt, s_width = w, s_xOffset = x \<rparr>)"

section \<open>Claims about the render order\<close>

text \<open>
  Claim C2, as stated, fails: an event carrying a grouping key does not sort before an
  ungrouped one. The order of the first criterion is \<^verbatim>\<open>'desc'\<close> and
  \<^verbatim>\<open>compareAscending\<close> ranks \<^verbatim>\<open>null\<close> above every key, so the ungrouped event
  comes first: given a grouped event followed by an ungrouped one with the same
  instants, \<^verbatim>\<open>sortByRender\<close> returns them swapped.
\<close>

theorem grouped_first_counterexample:
  "sortByRender [newEvent (during [(0, 10), (0, 10)]) (grouped 0 ''g'' (px 30)),
                 newEvent (during [(0, 10), (0, 10)]) (plain 1)]
   = [newEvent (during [(0, 10), (0, 10)]) (plain 1),
      newEvent (during [(0, 10), (0, 10)]) (grouped 0 ''g'' (px 30))]
   \<and> eventType (newEvent (during [(0, 10), (0, 10)]) (grouped 0 ''g'' (px 30))) = Some ''g''
   \<and> eventType (newEvent (during [(0, 10), (0, 10)]) (plain 1)) = None"
  by code_simp

text \<open>
  Claim C2, amended. For every input list the initial sort of the render-order sorter
  (\<^verbatim>\<open>sortedByTime\<close>, the result of \<^verbatim>\<open>orderBy\<close>) is a permutation of the input that
  is ordered, in priority order, by: (1) ungrouped events before events carrying a
  grouping key, and a greater key before a smaller one; (2) ascending start instant;
  (3) descending end instant; and the sort is stable: the events equal on all three
  criteria keep their original relative order.
\<close>

theorem orderBy_stable_sort:
  "mset (orderBy events) = mset events
   \<and> sorted_wrt (\<lambda>a b. \<not> renderBefore b a) (orderBy events)
   \<and> filter (\<lambda>e. sortKey e = k) (orderBy events) = filter (\<lambda>e. sortKey e = k) events"
  using mset_orderBy sorted_orderBy stable_orderBy by blast

theorem orderBy_stable_sort_witness:
  "orderBy [newEvent (during [(5, 10), (0, 10), (0, 10), (0, 20)]) (plain 0),
            newEvent (during [(5, 10), (0, 10), (0, 10), (0, 20)]) (plain 1),
            newEvent (during [(5, 10), (0, 10), (0, 10), (0, 20)]) (plain 2),
            newEvent (during [(5, 10), (0, 10), (0, 10), (0, 20)]) (grouped 3 ''g'' (px 30))]
   = [newEvent (during [(5, 10), (0, 10), (0, 10), (0, 20)]) (plain 1),
      newEvent (during [(5, 10), (0, 10), (0, 10), (0, 20)]) (plain 2),
      newEvent (during [(5, 10), (0, 10), (0, 10), (0, 20)]) (plain 0),
      newEvent (during [(5, 10), (0, 10), (0, 10), (0, 20)]) (grouped 3 ''g'' (px 30))]"
  using orderBy_stable_sort
    [of "[newEvent (during [(5, 10), (0, 10), (0, 10), (0, 20)]) (plain 0),
          newEvent (during [(5, 10), (0, 10), (0, 10), (0, 20)]) (plain 1),
          newEvent (during [(5, 10), (0, 10), (0, 10), (0, 20)]) (plain 2),
          newEvent (during [(5, 10), (0, 10), (0, 10), (0, 20)]) (grouped 3 ''g'' (px 30))]"
        "(None, 0, 10)"]
  by code_simp

text \<open>
  Claim C7, as stated, fails: two events with identical start and end instants and
  different grouping keys are put in the descending order of their keys, whatever their
  order in the input.
\<close>

theorem stability_counterexample:
  "getStyledEvents 1 (during [(0, 10), (0, 10)])
     [grouped 0 ''a'' (px 30), grouped 1 ''b'' (px 30)]
   = Inr [styled (grouped 1 ''b'' (px 30)) 0 10 (px 30) (px 0),
          styled (grouped 0 ''a'' (px 30)) 0 10 (px 30) (px 0)]"
  by code_simp

text \<open>
  Claim C7, amended. Whenever \<^verbatim>\<open>getStyledEvents\<close> returns, the input events that
  have the same grouping key (or none), the same start instant and the same end instant
  appear in the output in their order in the input.
\<close>

theorem render_order_stable:
  assumes "getStyledEvents msd locate events = Inr out"
  shows "filter (\<lambda>d. sortKey (newEvent locate d) = k) (map fst out)
       = filter (\<lambda>d. sortKey (newEvent locate d) = k) events"
proof -
  let ?proxies = "map (newEvent locate) events"
  let ?P = "\<lambda>d. sortKey (newEvent locate d) = k"
  have again: "newEvent locate (e_data e) = e" if "e \<in> set (sortByRender ?proxies)" for e
    using that by (auto simp: set_sortByRender data_newEvent)
  have "filter ?P (map fst out) = filter ?P (map e_data (sortByRender ?proxies))"
    by (simp only: getStyledEvents_order [OF assms])
  also have "\<dots> = map e_data (filter (\<lambda>e. ?P (e_data e)) (sortByRender ?proxies))"
    by (simp only: filter_map comp_def)
  also have "\<dots> = map e_data (filter (\<lambda>e. sortKey e = k) (sortByRender ?proxies))"
    by (rule arg_cong [where f = "map e_data"], rule filter_cong) (simp_all add: again)
  also have "\<dots> = map e_data (filter (\<lambda>e. sortKey e = k) ?proxies)"
    by (simp only: sortByRender_stable)
  also have "\<dots> = filter ?P events"
    by (simp add: filter_map comp_def data_newEvent)
  finally show ?thesis .
qed

theorem render_order_stable_witness:
  "filter (\<lambda>d. sortKey (newEvent (during [(0, 10), (0, 10), (0, 20)]) d) = (None, 0, 10))
     (map fst [styled (plain 2) 0 20 (pct (170 / 3)) \<lparr> d_value = 0, d_unit = [] \<rparr>,
               styled (plain 0) 0 10 (pct (170 / 3)) (pct (100 / 3)),
               styled (plain 1) 0 10 (pct (100 / 3)) (pct (200 / 3))])
   = filter (\<lambda>d. sortKey (newEvent (during [(0, 10), (0, 10), (0, 20)]) d) = (None, 0, 10))
       [plain 0, plain 1, plain 2]"
proof -
  have "getStyledEvents 1 (during [(0, 10), (0, 10), (0, 20)]) [plain 0, plain 1, plain 2]
      = Inr [styled (plain 2) 0 20 (pct (170 / 3)) \<lparr> d_value = 0, d_unit = [] \<rparr>,
             styled (plain 0) 0 10 (pct (170 / 3)) (pct (100 / 3)),
             styled (plain 1) 0 10 (pct (100 / 3)) (pct (200 / 3))]"
    by code_simp
  then show ?thesis
    by (rule render_order_stable)
qed

section \<open>The invariant of the clustering pass\<close>

text \<open>
  After \<open>n\<close> rounds of the loop the events at the addresses below \<open>n\<close> are linked
  consistently and the others are untouched: the rows of a container point back to it
  and are rows, the leaves of a row point back to it, a row is among the rows of its
  container, a leaf is among the leaves of its row and shares its container, and no
  list holds an address twice.
\<close>

definition fresh :: "event \<Rightarrow> bool" where
  "fresh e \<longleftrightarrow> e_rows e = None \<and> e_leaves e = None \<and> e_container e = None
     \<and> e_row e = None \<and> e_column e = None"

definition rowsOK :: "event list \<Rightarrow> addr list \<Rightarrow> nat \<Rightarrow> addr \<Rightarrow> bool" where
  "rowsOK h cs n j \<longleftrightarrow>
     (\<forall>rs. e_rows (h ! j) = Some rs \<longrightarrow>
         j \<in> set cs \<and> e_column (h ! j) = None \<and> distinct rs
         \<and> (\<forall>r \<in> set rs. r < n \<and> e_container (h ! r) = Some j \<and> e_leaves (h ! r) \<noteq> None))"

definition leavesOK :: "event list \<Rightarrow> nat \<Rightarrow> addr \<Rightarrow> bool" where
  "leavesOK h n j \<longleftrightarrow>
     (\<forall>ls. e_leaves (h ! j) = Some ls \<longrightarrow>
         e_rows (h ! j) = None \<and> e_column (h ! j) = None \<and> e_row (h ! j) = None
         \<and> distinct ls \<and> (\<forall>l \<in> set ls. l < n \<and> e_row (h ! l) = Some j)
         \<and> (\<exists>c rs. e_container (h ! j) = Some c \<and> c < n \<and> e_rows (h ! c) = Some rs
               \<and> j \<in> set rs))"

definition rowOK :: "event list \<Rightarrow> nat \<Rightarrow> addr \<Rightarrow> bool" where
  "rowOK h n j \<longleftrightarrow>
     (\<forall>r. e_row (h ! j) = Some r \<longrightarrow>
         e_rows (h ! j) = None \<and> e_leaves (h ! j) = None \<and> e_column (h ! j) = None
         \<and> r < n \<and> e_container (h ! j) = e_container (h ! r)
         \<and> (\<exists>ls. e_leaves (h ! r) = Some ls \<and> j \<in> set ls))"

definition contOK :: "event list \<Rightarrow> nat \<Rightarrow> addr \<Rightarrow> bool" where
  "contOK h n j \<longleftrightarrow> (\<forall>c. e_container (h ! j) = Some c \<longrightarrow> c < n)"

definition nodeOK :: "event list \<Rightarrow> addr list \<Rightarrow> nat \<Rightarrow> addr \<Rightarrow> bool" where
  "nodeOK h cs n j \<longleftrightarrow>
     (n \<le> j \<longrightarrow> fresh (h ! j)) \<and> rowsOK h cs n j \<and> leavesOK h n j \<and> rowOK h n j
   \<and> contOK h n j"

text \<open>How one round changes the cells of the events placed before: the scalar fields
  stay, and a list of rows or leaves stays or gets the new address \<open>n\<close> appended.\<close>

definition grows :: "event list \<Rightarrow> event list \<Rightarrow> nat \<Rightarrow> addr \<Rightarrow> bool" where
  "grows h h' n x \<longleftrightarrow>
     e_container (h' ! x) = e_container (h ! x)
   \<and> e_row (h' ! x) = e_row (h ! x)
   \<and> e_column (h' ! x) = e_column (h ! x)
   \<and> (e_rows (h' ! x) = e_rows (h ! x)
        \<or> (\<exists>rs. e_rows (h ! x) = Some rs \<and> e_rows (h' ! x) = Some (rs @ [n])
              \<and> e_container (h' ! n) = Some x \<and> e_leaves (h' ! n) \<noteq> None))
   \<and> (e_leaves (h' ! x) = e_leaves (h ! x)
        \<or> (\<exists>ls. e_leaves (h ! x) = Some ls \<and> e_leaves (h' ! x) = Some (ls @ [n])
              \<and> e_row (h' ! n) = Some x))"

lemma grows_leaves_None: "grows h h' n x \<Longrightarrow> e_leaves (h' ! x) = None \<longleftrightarrow> e_leaves (h ! x) = None"
  by (auto simp: grows_def)

lemma grows_rows_None: "grows h h' n x \<Longrightarrow> e_rows (h' ! x) = None \<longleftrightarrow> e_rows (h ! x) = None"
  by (auto simp: grows_def)

lemma grows_rows_mem:
  "grows h h' n x \<Longrightarrow> e_rows (h ! x) = Some rs \<Longrightarrow> r \<in> set rs \<Longrightarrow>
     \<exists>rs'. e_rows (h' ! x) = Some rs' \<and> r \<in> set rs'"
  by (auto simp: grows_def)

lemma grows_leaves_mem:
  "grows h h' n x \<Longrightarrow> e_leaves (h ! x) = Some ls \<Longrightarrow> l \<in> set ls \<Longrightarrow>
     \<exists>ls'. e_leaves (h' ! x) = Some ls' \<and> l \<in> set ls'"
  by (auto simp: grows_def)

lemma rowsOK_grow:
  assumes ok: "rowsOK h cs n j" and j: "j < n" and G: "\<And>x. x < n \<Longrightarrow> grows h h' n x"
    and cs: "set cs \<subseteq> set cs'"
  shows "rowsOK h' cs' (Suc n) j"
  unfolding rowsOK_def
proof (intro allI impI)
  fix rs' assume rs': "e_rows (h' ! j) = Some rs'"
  from G [OF j] rs' consider (same) "e_rows (h ! j) = Some rs'"
    | (app) rs where "e_rows (h ! j) = Some rs" "rs' = rs @ [n]"
      "e_container (h' ! n) = Some j" "e_leaves (h' ! n) \<noteq> None"
    by (auto simp: grows_def)
  then show "j \<in> set cs' \<and> e_column (h' ! j) = None \<and> distinct rs'
      \<and> (\<forall>r \<in> set rs'. r < Suc n \<and> e_container (h' ! r) = Some j \<and> e_leaves (h' ! r) \<noteq> None)"
  proof cases
    case same
    with ok have old: "j \<in> set cs" "e_column (h ! j) = None" "distinct rs'"
      "\<forall>r \<in> set rs'. r < n \<and> e_container (h ! r) = Some j \<and> e_leaves (h ! r) \<noteq> None"
      by (auto simp: rowsOK_def)
    have "r < Suc n \<and> e_container (h' ! r) = Some j \<and> e_leaves (h' ! r) \<noteq> None"
      if "r \<in> set rs'" for r
    proof -
      from old(4) that have r: "r < n" "e_container (h ! r) = Some j" "e_leaves (h ! r) \<noteq> None"
        by auto
      with G [OF r(1)] grows_leaves_None [OF G [OF r(1)]] show ?thesis
        by (simp add: grows_def)
    qed
    with old cs G [OF j] show ?thesis
      by (auto simp: grows_def)
  next
    case app
    with ok have old: "j \<in> set cs" "e_column (h ! j) = None" "distinct rs"
      "\<forall>r \<in> set rs. r < n \<and> e_container (h ! r) = Some j \<and> e_leaves (h ! r) \<noteq> None"
      by (auto simp: rowsOK_def)
    have "r < Suc n \<and> e_container (h' ! r) = Some j \<and> e_leaves (h' ! r) \<noteq> None"
      if "r \<in> set rs" for r
    proof -
      from old(4) that have r: "r < n" "e_container (h ! r) = Some j" "e_leaves (h ! r) \<noteq> None"
        by auto
      with G [OF r(1)] grows_leaves_None [OF G [OF r(1)]] show ?thesis
        by (simp add: grows_def)
    qed
    moreover have "n \<notin> set rs"
      using old(4) by auto
    ultimately show ?thesis
      using old cs G [OF j] app by (auto simp: grows_def)
  qed
qed

lemma leavesOK_grow:
  assumes ok: "leavesOK h n j" and j: "j < n" and G: "\<And>x. x < n \<Longrightarrow> grows h h' n x"
  shows "leavesOK h' (Suc n) j"
  unfolding leavesOK_def
proof (intro allI impI)
  fix ls' assume ls': "e_leaves (h' ! j) = Some ls'"
  from G [OF j] ls' consider (same) "e_leaves (h ! j) = Some ls'"
    | (app) ls where "e_leaves (h ! j) = Some ls" "ls' = ls @ [n]" "e_row (h' ! n) = Some j"
    by (auto simp: grows_def)
  then obtain ls where ls: "e_leaves (h ! j) = Some ls"
    and cases: "ls' = ls \<or> (ls' = ls @ [n] \<and> e_row (h' ! n) = Some j)"
    by cases auto
  from ok ls have old: "e_rows (h ! j) = None" "e_column (h ! j) = None" "e_row (h ! j) = None"
    "distinct ls" "\<forall>l \<in> set ls. l < n \<and> e_row (h ! l) = Some j"
    and "\<exists>c rs. e_container (h ! j) = Some c \<and> c < n \<and> e_rows (h ! c) = Some rs \<and> j \<in> set rs"
    by (auto simp: leavesOK_def)
  then obtain c rs where c: "e_container (h ! j) = Some c" "c < n" "e_rows (h ! c) = Some rs"
    "j \<in> set rs"
    by blast
  from grows_rows_mem [OF G [OF c(2)] c(3,4)]
  obtain rs' where rs': "e_rows (h' ! c) = Some rs'" "j \<in> set rs'"
    by blast
  have cont: "\<exists>c rs. e_container (h' ! j) = Some c \<and> c < Suc n \<and> e_rows (h' ! c) = Some rs
      \<and> j \<in> set rs"
    using c rs' G [OF j] by (auto simp: grows_def)
  have scal: "e_rows (h' ! j) = None" "e_column (h' ! j) = None" "e_row (h' ! j) = None"
    using old G [OF j] grows_rows_None [OF G [OF j]] by (simp_all add: grows_def)
  have mem: "l < Suc n \<and> e_row (h' ! l) = Some j" if "l \<in> set ls" for l
  proof -
    from old(5) that have "l < n" "e_row (h ! l) = Some j" by auto
    with G [of l] show ?thesis by (simp add: grows_def)
  qed
  have "n \<notin> set ls" using old(5) by auto
  with cases old(4) mem have "distinct ls' \<and> (\<forall>l \<in> set ls'. l < Suc n \<and> e_row (h' ! l) = Some j)"
    by auto
  with scal cont
  show "e_rows (h' ! j) = None \<and> e_column (h' ! j) = None \<and> e_row (h' ! j) = None
      \<and> distinct ls' \<and> (\<forall>l \<in> set ls'. l < Suc n \<and> e_row (h' ! l) = Some j)
      \<and> (\<exists>c rs. e_container (h' ! j) = Some c \<and> c < Suc n \<and> e_rows (h' ! c) = Some rs
            \<and> j \<in> set rs)"
    by blast
qed

lemma rowOK_grow:
  assumes ok: "rowOK h n j" and j: "j < n" and G: "\<And>x. x < n \<Longrightarrow> grows h h' n x"
  shows "rowOK h' (Suc n) j"
  unfolding rowOK_def
proof (intro allI impI)
  fix r assume "e_row (h' ! j) = Some r"
  with G [OF j] have r: "e_row (h ! j) = Some r" by (simp add: grows_def)
  with ok have old: "e_rows (h ! j) = None" "e_leaves (h ! j) = None" "e_column (h ! j) = None"
    "r < n" "e_container (h ! j) = e_container (h ! r)"
    and "\<exists>ls. e_leaves (h ! r) = Some ls \<and> j \<in> set ls"
    by (auto simp: rowOK_def)
  then obtain ls where ls: "e_leaves (h ! r) = Some ls" "j \<in> set ls" by blast
  from grows_leaves_mem [OF G [OF old(4)] ls]
  have "\<exists>ls. e_leaves (h' ! r) = Some ls \<and> j \<in> set ls" .
  moreover have "e_rows (h' ! j) = None" "e_leaves (h' ! j) = None" "e_column (h' ! j) = None"
    using old G [OF j] grows_rows_None [OF G [OF j]] grows_leaves_None [OF G [OF j]]
    by (simp_all add: grows_def)
  moreover have "e_container (h' ! j) = e_container (h' ! r)"
    using old G [OF j] G [OF old(4)] by (simp add: grows_def)
  ultimately show "e_rows (h' ! j) = None \<and> e_leaves (h' ! j) = None \<and> e_column (h' ! j) = None
      \<and> r < Suc n \<and> e_container (h' ! j) = e_container (h' ! r)
      \<and> (\<exists>ls. e_leaves (h' ! r) = Some ls \<and> j \<in> set ls)"
    using old(4) by simp
qed

lemma contOK_grow:
  assumes "contOK h n j" and "j < n" and "\<And>x. x < n \<Longrightarrow> grows h h' n x"
  shows "contOK h' (Suc n) j"
  using assms(1) assms(3) [OF assms(2)] by (auto simp: contOK_def grows_def less_Suc_eq)

lemma nodeOK_grow:
  assumes "nodeOK h cs n j" and "j < n" and "\<And>x. x < n \<Longrightarrow> grows h h' n x"
    and "set cs \<subseteq> set cs'"
  shows "nodeOK h' cs' (Suc n) j"
  using assms rowsOK_grow [of h cs n j h' cs'] leavesOK_grow [of h n j h'] rowOK_grow [of h n j h']
    contOK_grow [of h n j h']
  by (simp add: nodeOK_def)

lemma nodeOK_fresh: "fresh (h ! j) \<Longrightarrow> nodeOK h cs n j"
  by (simp add: nodeOK_def fresh_def rowsOK_def leavesOK_def rowOK_def contOK_def)

definition matrixOK :: "nat \<Rightarrow> matrix \<Rightarrow> bool" where
  "matrixOK n m \<longleftrightarrow> (\<forall>slots \<in> set m. \<forall>c<3. \<forall>p. slots ! c = Some p \<longrightarrow> p < n)"

definition wfAt :: "nat \<Rightarrow> layout \<Rightarrow> bool" where
  "wfAt n st \<longleftrightarrow>
     n \<le> length (heap st)
   \<and> (\<forall>j<length (heap st). nodeOK (heap st) (containerEvents st) n j)
   \<and> (\<forall>c \<in> set (containerEvents st). c < n \<and> e_rows (heap st ! c) \<noteq> None)
   \<and> (\<forall>k m. namedContainerEvents st k = Some m \<longrightarrow> matrixOK n m)"

lemma matrixOK_mono: "matrixOK n m \<Longrightarrow> n \<le> n' \<Longrightarrow> matrixOK n' m"
  by (fastforce simp: matrixOK_def)

lemma nth_empty_row: "c < 3 \<Longrightarrow> [None, None, None] ! c = None"
  by (simp add: nth_Cons' )

lemma matrixOK_ensureRow: "matrixOK n m \<Longrightarrow> matrixOK n (ensureRow r m)"
  by (auto simp: matrixOK_def ensureRow_def nth_empty_row)

lemma matrixOK_update:
  assumes "matrixOK n m" and "r < length m" and "a < n"
  shows "matrixOK n (m[r := (m ! r)[c := Some a]])"
  unfolding matrixOK_def
proof (intro ballI allI impI)
  fix slots c' p
  assume slots: "slots \<in> set (m[r := (m ! r)[c := Some a]])" and c': "c' < 3"
    and p: "slots ! c' = Some p"
  from slots have "slots = (m ! r)[c := Some a] \<or> slots \<in> set m"
    using set_update_subset_insert [of m r] by auto
  then show "p < n"
  proof
    assume "slots \<in> set m"
    with assms(1) c' p show ?thesis by (auto simp: matrixOK_def)
  next
    assume eq: "slots = (m ! r)[c := Some a]"
    have old: "m ! r \<in> set m" using assms(2) by simp
    show ?thesis
    proof (cases "c' = c \<and> c < length (m ! r)")
      case True
      with eq p assms(3) show ?thesis by simp
    next
      case False
      have "(m ! r)[c := Some a] = m ! r" if "\<not> c < length (m ! r)"
        using that by (intro list_update_beyond) simp
      with False eq p have "(m ! r) ! c' = Some p"
        by (cases "c < length (m ! r)") (auto simp: nth_list_update split: if_splits)
      with assms(1) old c' show ?thesis by (auto simp: matrixOK_def)
    qed
  qed
qed

lemma length_ensureRow: "r \<le> length m \<Longrightarrow> r < length (ensureRow r m)"
  by (simp add: ensureRow_def)

lemma placeInMatrix_OK:
  "placeInMatrix h event a m r = Inr (m', col) \<Longrightarrow> matrixOK n m \<Longrightarrow> a < n \<Longrightarrow> matrixOK n m'"
proof (induction h event a m r rule: placeInMatrix.induct)
  case (1 h event a matrix r)
  note eq = "1.prems"(1) [unfolded placeInMatrix.simps [of h event a matrix r]]
  show ?case
  proof (cases "r \<le> length matrix")
    case False
    with eq "1.prems" show ?thesis by simp
  next
    case le: True
    have okE: "matrixOK n (ensureRow r matrix)"
      using "1.prems"(2) by (rule matrixOK_ensureRow)
    have lenE: "r < length (ensureRow r matrix)"
      using le by (rule length_ensureRow)
    show ?thesis
    proof (cases "r = 0")
      case r0: True
      show ?thesis
      proof (cases "firstEmpty (ensureRow r matrix ! 0)")
        case None
        with eq le r0 have "placeInMatrix h event a (ensureRow r matrix) (Suc r) = Inr (m', col)"
          by simp
        from "1.IH"(1) [OF le r0 None this okE "1.prems"(3)] show ?thesis .
      next
        case (Some c)
        with eq le r0 have "m' = (ensureRow r matrix)[0 := (ensureRow r matrix ! 0)[c := Some a]]"
          by simp
        with matrixOK_update [OF okE _ "1.prems"(3), of 0 c] lenE r0 show ?thesis by simp
      qed
    next
      case rpos: False
      show ?thesis
      proof (cases "bestSlot h event (ensureRow r matrix ! r) (ensureRow r matrix ! (r - 1))")
        case (Inl e)
        with eq le rpos show ?thesis by simp
      next
        case (Inr best)
        obtain bc g where best: "best = (bc, g)" by (cases best)
        show ?thesis
        proof (cases bc)
          case None
          with eq le rpos Inr best
          have "placeInMatrix h event a (ensureRow r matrix) (Suc r) = Inr (m', col)"
            by simp
          from "1.IH"(2) [OF le rpos Inr [unfolded best] refl None this okE "1.prems"(3)]
          show ?thesis .
        next
          case (Some c)
          with eq le rpos Inr best
          have "m' = (ensureRow r matrix)[r := (ensureRow r matrix ! r)[c := Some a]]"
            by simp
          with matrixOK_update [OF okE lenE "1.prems"(3), of c] show ?thesis by simp
        qed
      qed
    qed
  qed
qed

lemma grows_same: "h' ! x = h ! x \<Longrightarrow> grows h h' n x"
  by (simp add: grows_def)

lemma find_SomeD: "find P xs = Some x \<Longrightarrow> x \<in> set xs \<and> P x"
  by (auto simp: find_Some_iff)

lemma wfAt_grouped:
  assumes wf: "wfAt n st" and n: "n < length (heap st)"
    and m: "matrixOK (Suc n) m"
  shows "wfAt (Suc n) (st\<lparr> heap := (heap st)[n := (heap st ! n)\<lparr> e_column := col \<rparr>],
      namedContainerEvents := (namedContainerEvents st)(k \<mapsto> m) \<rparr>)"
proof -
  let ?h = "heap st" and ?cs = "containerEvents st"
  let ?h' = "?h[n := (?h ! n)\<lparr> e_column := col \<rparr>]"
  from wf have N: "\<And>j. j < length ?h \<Longrightarrow> nodeOK ?h ?cs n j"
    and C: "\<forall>c \<in> set ?cs. c < n \<and> e_rows (?h ! c) \<noteq> None"
    and M: "\<And>k m. namedContainerEvents st k = Some m \<Longrightarrow> matrixOK n m"
    by (auto simp: wfAt_def)
  have fr: "fresh (?h ! n)" using N [OF n] by (simp add: nodeOK_def)
  have G: "grows ?h ?h' n x" if "x < n" for x
    using that by (intro grows_same) simp
  have "nodeOK ?h' ?cs (Suc n) j" if j: "j < length ?h" for j
  proof -
    consider "j < n" | "j = n" | "n < j" by linarith
    then show ?thesis
    proof cases
      case 1
      from nodeOK_grow [OF N [OF j] 1 G] show ?thesis by simp
    next
      case 2
      with fr n show ?thesis
        by (simp add: nodeOK_def fresh_def rowsOK_def leavesOK_def rowOK_def contOK_def)
    next
      case 3
      with N [OF j] have "fresh (?h' ! j)" by (simp add: nodeOK_def)
      then show ?thesis by (rule nodeOK_fresh)
    qed
  qed
  moreover have "\<forall>c \<in> set ?cs. c < Suc n \<and> e_rows (?h' ! c) \<noteq> None"
    using C by (auto simp: nth_list_update)
  moreover have "matrixOK (Suc n) m'"
    if "((namedContainerEvents st)(k \<mapsto> m)) k' = Some m'" for k' m'
    using that m M [of k' m'] by (auto simp: matrixOK_mono split: if_splits)
  ultimately show ?thesis
    using n by (simp add: wfAt_def)
qed

lemma wfAt_container:
  assumes wf: "wfAt n st" and n: "n < length (heap st)"
  shows "wfAt (Suc n) (st\<lparr> heap := (heap st)[n := (heap st ! n)\<lparr> e_rows := Some [] \<rparr>],
      containerEvents := containerEvents st @ [n] \<rparr>)"
proof -
  let ?h = "heap st" and ?cs = "containerEvents st"
  let ?h' = "?h[n := (?h ! n)\<lparr> e_rows := Some [] \<rparr>]"
  from wf have N: "\<And>j. j < length ?h \<Longrightarrow> nodeOK ?h ?cs n j"
    and C: "\<forall>c \<in> set ?cs. c < n \<and> e_rows (?h ! c) \<noteq> None"
    and M: "\<And>k m. namedContainerEvents st k = Some m \<Longrightarrow> matrixOK n m"
    by (auto simp: wfAt_def)
  have fr: "fresh (?h ! n)" using N [OF n] by (simp add: nodeOK_def)
  have G: "grows ?h ?h' n x" if "x < n" for x
    using that by (intro grows_same) simp
  have "nodeOK ?h' (?cs @ [n]) (Suc n) j" if j: "j < length ?h" for j
  proof -
    consider "j < n" | "j = n" | "n < j" by linarith
    then show ?thesis
    proof cases
      case 1
      from nodeOK_grow [OF N [OF j] 1 G, of "?cs @ [n]"] show ?thesis by auto
    next
      case 2
      with fr n show ?thesis
        by (simp add: nodeOK_def fresh_def rowsOK_def leavesOK_def rowOK_def contOK_def)
    next
      case 3
      with N [OF j] have "fresh (?h' ! j)" by (simp add: nodeOK_def)
      then show ?thesis by (rule nodeOK_fresh)
    qed
  qed
  moreover have "\<forall>c \<in> set (?cs @ [n]). c < Suc n \<and> e_rows (?h' ! c) \<noteq> None"
    using C n by (auto simp: nth_list_update)
  moreover have "matrixOK (Suc n) m" if "namedContainerEvents st k = Some m" for k m
    using M [OF that] by (simp add: matrixOK_mono)
  ultimately show ?thesis
    using n by (simp add: wfAt_def)
qed

lemma wfAt_row:
  assumes wf: "wfAt n st" and n: "n < length (heap st)"
    and c: "c \<in> set (containerEvents st)" and rs: "e_rows (heap st ! c) = Some rs"
  shows "wfAt (Suc n) (st\<lparr> heap := (heap st)
      [n := (heap st ! n)\<lparr> e_container := Some c, e_leaves := Some [] \<rparr>,
       c := (heap st ! c)\<lparr> e_rows := Some (rs @ [n]) \<rparr>] \<rparr>)"
proof -
  let ?h = "heap st" and ?cs = "containerEvents st"
  let ?h' = "?h[n := (?h ! n)\<lparr> e_container := Some c, e_leaves := Some [] \<rparr>,
       c := (?h ! c)\<lparr> e_rows := Some (rs @ [n]) \<rparr>]"
  from wf have N: "\<And>j. j < length ?h \<Longrightarrow> nodeOK ?h ?cs n j"
    and C: "\<forall>c \<in> set ?cs. c < n \<and> e_rows (?h ! c) \<noteq> None"
    and M: "\<And>k m. namedContainerEvents st k = Some m \<Longrightarrow> matrixOK n m"
    by (auto simp: wfAt_def)
  from C c have cn: "c < n" by simp
  have fr: "fresh (?h ! n)" using N [OF n] by (simp add: nodeOK_def)
  have hn: "?h' ! n = (?h ! n)\<lparr> e_container := Some c, e_leaves := Some [] \<rparr>"
    using cn n by simp
  have hc: "?h' ! c = (?h ! c)\<lparr> e_rows := Some (rs @ [n]) \<rparr>"
    using cn n by simp
  have ho: "?h' ! x = ?h ! x" if "x \<noteq> n" "x \<noteq> c" for x
    using that by simp
  have G: "grows ?h ?h' n x" if "x < n" for x
  proof (cases "x = c")
    case True
    with rs hn hc show ?thesis by (simp add: grows_def)
  next
    case False
    with that show ?thesis by (intro grows_same ho) simp_all
  qed
  have "nodeOK ?h' ?cs (Suc n) j" if j: "j < length ?h" for j
  proof -
    consider "j < n" | "j = n" | "n < j" by linarith
    then show ?thesis
    proof cases
      case 1
      from nodeOK_grow [OF N [OF j] 1 G] show ?thesis by simp
    next
      case 2
      have "\<exists>c' rs'. e_container (?h' ! n) = Some c' \<and> c' < Suc n \<and> e_rows (?h' ! c') = Some rs'
          \<and> n \<in> set rs'"
        using hn hc cn by (intro exI [of _ c] exI [of _ "rs @ [n]"]) simp
      with 2 fr hn cn show ?thesis
        by (simp add: nodeOK_def fresh_def rowsOK_def leavesOK_def rowOK_def contOK_def)
    next
      case 3
      with cn have "?h' ! j = ?h ! j" by (intro ho) simp_all
      with 3 N [OF j] have "fresh (?h' ! j)" by (simp add: nodeOK_def)
      then show ?thesis by (rule nodeOK_fresh)
    qed
  qed
  moreover have "\<forall>c' \<in> set ?cs. c' < Suc n \<and> e_rows (?h' ! c') \<noteq> None"
  proof
    fix c' assume "c' \<in> set ?cs"
    with C have "c' < n" "e_rows (?h ! c') \<noteq> None" by auto
    with grows_rows_None [OF G [of c']] show "c' < Suc n \<and> e_rows (?h' ! c') \<noteq> None"
      by simp
  qed
  moreover have "matrixOK (Suc n) m" if "namedContainerEvents st k = Some m" for k m
    using M [OF that] by (simp add: matrixOK_mono)
  ultimately show ?thesis
    using n by (simp add: wfAt_def)
qed

lemma wfAt_leaf:
  assumes wf: "wfAt n st" and n: "n < length (heap st)"
    and c: "c \<in> set (containerEvents st)" and rs: "e_rows (heap st ! c) = Some rs"
    and r: "r \<in> set rs" and ls: "e_leaves (heap st ! r) = Some ls"
  shows "wfAt (Suc n) (st\<lparr> heap := (heap st)
      [n := (heap st ! n)\<lparr> e_container := Some c, e_row := Some r \<rparr>,
       r := (heap st ! r)\<lparr> e_leaves := Some (ls @ [n]) \<rparr>] \<rparr>)"
proof -
  let ?h = "heap st" and ?cs = "containerEvents st"
  let ?h' = "?h[n := (?h ! n)\<lparr> e_container := Some c, e_row := Some r \<rparr>,
       r := (?h ! r)\<lparr> e_leaves := Some (ls @ [n]) \<rparr>]"
  from wf have N: "\<And>j. j < length ?h \<Longrightarrow> nodeOK ?h ?cs n j"
    and C: "\<forall>c \<in> set ?cs. c < n \<and> e_rows (?h ! c) \<noteq> None"
    and M: "\<And>k m. namedContainerEvents st k = Some m \<Longrightarrow> matrixOK n m"
    by (auto simp: wfAt_def)
  from C c have cn: "c < n" by simp
  with n have "rowsOK ?h ?cs n c" using N [of c] by (simp add: nodeOK_def)
  with rs r have rn: "r < n" and rc: "e_container (?h ! r) = Some c"
    by (auto simp: rowsOK_def)
  have fr: "fresh (?h ! n)" using N [OF n] by (simp add: nodeOK_def)
  have hn: "?h' ! n = (?h ! n)\<lparr> e_container := Some c, e_row := Some r \<rparr>"
    using rn n by simp
  have hr: "?h' ! r = (?h ! r)\<lparr> e_leaves := Some (ls @ [n]) \<rparr>"
    using rn n by simp
  have ho: "?h' ! x = ?h ! x" if "x \<noteq> n" "x \<noteq> r" for x
    using that by simp
  have G: "grows ?h ?h' n x" if "x < n" for x
  proof (cases "x = r")
    case True
    with ls hn hr show ?thesis by (simp add: grows_def)
  next
    case False
    with that show ?thesis by (intro grows_same ho) simp_all
  qed
  have "nodeOK ?h' ?cs (Suc n) j" if j: "j < length ?h" for j
  proof -
    consider "j < n" | "j = n" | "n < j" by linarith
    then show ?thesis
    proof cases
      case 1
      from nodeOK_grow [OF N [OF j] 1 G] show ?thesis by simp
    next
      case 2
      have "\<exists>ls'. e_leaves (?h' ! r) = Some ls' \<and> n \<in> set ls'"
        using hr by simp
      moreover have "e_container (?h' ! n) = e_container (?h' ! r)"
        using hn hr rc by simp
      ultimately show ?thesis
        using 2 fr hn rn cn
        by (simp add: nodeOK_def fresh_def rowsOK_def leavesOK_def rowOK_def contOK_def)
    next
      case 3
      with rn have "?h' ! j = ?h ! j" by (intro ho) simp_all
      with 3 N [OF j] have "fresh (?h' ! j)" by (simp add: nodeOK_def)
      then show ?thesis by (rule nodeOK_fresh)
    qed
  qed
  moreover have "\<forall>c' \<in> set ?cs. c' < Suc n \<and> e_rows (?h' ! c') \<noteq> None"
  proof
    fix c' assume "c' \<in> set ?cs"
    with C have "c' < n" "e_rows (?h ! c') \<noteq> None" by auto
    with grows_rows_None [OF G [of c']] show "c' < Suc n \<and> e_rows (?h' ! c') \<noteq> None"
      by simp
  qed
  moreover have "matrixOK (Suc n) m" if "namedContainerEvents st k = Some m" for k m
    using M [OF that] by (simp add: matrixOK_mono)
  ultimately show ?thesis
    using n by (simp add: wfAt_def)
qed

lemma matrixOK_first: "matrixOK (Suc n) [[Some n, None, None]]"
  by (auto simp: matrixOK_def nth_Cons' split: if_splits)

lemma placeEvent_wf:
  assumes wf: "wfAt n st" and n: "n < length (heap st)"
    and step: "placeEvent msd st n = Inr st'"
  shows "wfAt (Suc n) st'"
proof -
  let ?h = "heap st" and ?cs = "containerEvents st"
  let ?ev = "?h ! n"
  from wf have N: "\<And>j. j < length ?h \<Longrightarrow> nodeOK ?h ?cs n j"
    and C: "\<forall>c \<in> set ?cs. c < n \<and> e_rows (?h ! c) \<noteq> None"
    and M: "\<And>k m. namedContainerEvents st k = Some m \<Longrightarrow> matrixOK n m"
    by (auto simp: wfAt_def)
  show ?thesis
  proof (cases "eventType ?ev")
    case (Some k)
    show ?thesis
    proof (cases "namedContainerEvents st k")
      case None
      with Some step have "st' = st\<lparr> heap := ?h[n := ?ev\<lparr> e_column := Some 0 \<rparr>],
          namedContainerEvents := (namedContainerEvents st)(k \<mapsto> [[Some n, None, None]]) \<rparr>"
        by (simp add: placeEvent_def Let_def)
      with wfAt_grouped [OF wf n matrixOK_first] show ?thesis by simp
    next
      case m: (Some m)
      with Some step obtain m' col where pm: "placeInMatrix ?h ?ev n m 0 = Inr (m', col)"
        and st': "st' = st\<lparr> heap := ?h[n := ?ev\<lparr> e_column := col \<rparr>],
          namedContainerEvents := (namedContainerEvents st)(k \<mapsto> m') \<rparr>"
        by (auto simp: placeEvent_def Let_def split: sum.splits prod.splits)
      have "matrixOK (Suc n) m" using M [OF m] by (simp add: matrixOK_mono)
      with pm have "matrixOK (Suc n) m'" by (rule placeInMatrix_OK) simp
      with wfAt_grouped [OF wf n this] st' show ?thesis by simp
    qed
  next
    case None
    show ?thesis
    proof (cases "find (\<lambda>c. accepts msd ?ev (?h ! c)) ?cs")
      case nc: None
      with None step have "st' = st\<lparr> heap := ?h[n := ?ev\<lparr> e_rows := Some [] \<rparr>],
          containerEvents := ?cs @ [n] \<rparr>"
        by (simp add: placeEvent_def Let_def)
      with wfAt_container [OF wf n] show ?thesis by simp
    next
      case (Some c)
      then have c: "c \<in> set ?cs" by (simp add: find_SomeD)
      with C obtain rs where cn: "c < n" and rs: "e_rows (?h ! c) = Some rs" by auto
      let ?h1 = "?h[n := ?ev\<lparr> e_container := Some c \<rparr>]"
      have h1: "?h1 ! x = ?h ! x" if "x < n" for x using that by simp
      have rs1: "e_rows (?h1 ! c) = Some rs" using rs cn by simp
      from n cn have "rowsOK ?h ?cs n c" using N [of c] by (simp add: nodeOK_def)
      with rs have R: "\<forall>r \<in> set rs. r < n \<and> e_leaves (?h ! r) \<noteq> None"
        by (auto simp: rowsOK_def)
      show ?thesis
      proof (cases "find (\<lambda>r. onSameRow (?h1 ! r) ?ev msd) (rev rs)")
        case nr: None
        with None Some rs1 step
        have "st' = st\<lparr> heap := (?h1[n := (?h1 ! n)\<lparr> e_leaves := Some [] \<rparr>])
            [c := (?h1[n := (?h1 ! n)\<lparr> e_leaves := Some [] \<rparr>] ! c)\<lparr> e_rows := Some (rs @ [n]) \<rparr>] \<rparr>"
          by (simp add: placeEvent_def Let_def)
        also have "(?h1[n := (?h1 ! n)\<lparr> e_leaves := Some [] \<rparr>])
            [c := (?h1[n := (?h1 ! n)\<lparr> e_leaves := Some [] \<rparr>] ! c)\<lparr> e_rows := Some (rs @ [n]) \<rparr>]
            = ?h[n := ?ev\<lparr> e_container := Some c, e_leaves := Some [] \<rparr>,
                 c := (?h ! c)\<lparr> e_rows := Some (rs @ [n]) \<rparr>]"
          using n cn by simp
        finally show ?thesis
          using wfAt_row [OF wf n c rs] by simp
      next
        case sr: (Some r)
        then have r: "r \<in> set rs" using find_SomeD [OF sr] by simp
        with R obtain ls where rn: "r < n" and ls: "e_leaves (?h ! r) = Some ls" by auto
        have ls1: "e_leaves (?h1 ! r) = Some ls" using ls rn by simp
        let ?h2 = "?h1[r := (?h1 ! r)\<lparr> e_leaves := Some (ls @ [n]) \<rparr>]"
        from None Some rs1 sr ls1 step
        have "st' = st\<lparr> heap := ?h2[n := (?h2 ! n)\<lparr> e_row := Some r \<rparr>] \<rparr>"
          by (simp add: placeEvent_def Let_def)
        also have "?h2[n := (?h2 ! n)\<lparr> e_row := Some r \<rparr>]
            = ?h[n := ?ev\<lparr> e_container := Some c, e_row := Some r \<rparr>,
                 r := (?h ! r)\<lparr> e_leaves := Some (ls @ [n]) \<rparr>]"
          using n rn by (simp add: list_eq_iff_nth_eq nth_list_update)
        finally show ?thesis
          using wfAt_leaf [OF wf n c rs r ls] by simp
      qed
    qed
  qed
qed

lemma placeEvent_length:
  assumes "placeEvent msd st i = Inr st'" and "i < length (heap st)"
  shows "length (heap st') = length (heap st)"
  using placeEvent_static [OF assms] by (rule map_eq_imp_length_eq)

lemma clusterFrom_wf:
  "wfAt n st \<Longrightarrow> clusterFrom msd [n..<length (heap st)] st = Inr st'
     \<Longrightarrow> wfAt (length (heap st)) st' \<and> length (heap st') = length (heap st)"
proof (induction "length (heap st) - n" arbitrary: n st)
  case 0
  then have "n = length (heap st)" by (simp add: wfAt_def)
  with 0 show ?case by simp
next
  case (Suc d)
  then have n: "n < length (heap st)" by simp
  then have upt: "[n..<length (heap st)] = n # [Suc n..<length (heap st)]"
    by (simp add: upt_conv_Cons)
  with Suc.prems obtain st1 where st1: "placeEvent msd st n = Inr st1"
    and rest: "clusterFrom msd [Suc n..<length (heap st)] st1 = Inr st'"
    by (auto split: sum.splits)
  have len: "length (heap st1) = length (heap st)"
    using st1 n by (rule placeEvent_length)
  have wf1: "wfAt (Suc n) st1"
    using Suc.prems(1) n st1 by (rule placeEvent_wf)
  have d: "d = length (heap st1) - Suc n" using Suc.hyps(2) len by simp
  have rest1: "clusterFrom msd [Suc n..<length (heap st1)] st1 = Inr st'"
    using rest by (simp only: len)
  from Suc.hyps(1) [OF d wf1 rest1] show ?case by (simp only: len)
qed

lemma wfAt_empty: "\<forall>e \<in> set events. fresh e \<Longrightarrow> wfAt 0 (emptyLayout events)"
  by (simp add: wfAt_def emptyLayout_def nodeOK_fresh)

lemma cluster_wf:
  assumes "cluster msd events = Inr st" and "\<forall>e \<in> set events. fresh e"
  shows "wfAt (length events) st \<and> length (heap st) = length events"
proof -
  have "clusterFrom msd [0..<length (heap (emptyLayout events))] (emptyLayout events) = Inr st"
    using assms(1) by (simp add: cluster_def emptyLayout_def)
  from clusterFrom_wf [OF wfAt_empty [OF assms(2)] this] show ?thesis
    by (simp add: emptyLayout_def)
qed

lemma fresh_newEvent: "fresh (newEvent locate d)"
  by (simp add: fresh_def newEvent_def Let_def)

lemma fresh_render_order: "\<forall>e \<in> set (sortByRender (map (newEvent locate) events)). fresh e"
  by (auto simp: set_sortByRender fresh_newEvent)

section \<open>The geometry of the final layout\<close>

text \<open>The layout after the loop of \<^verbatim>\<open>getStyledEvents\<close>.\<close>

definition clusterEvents :: "real \<Rightarrow> (payload \<Rightarrow> range) \<Rightarrow> payload list \<Rightarrow> error + layout" where
  "clusterEvents msd locate events = cluster msd (sortByRender (map (newEvent locate) events))"

lemma clusterEvents_wf:
  assumes "clusterEvents msd locate events = Inr st"
  shows "wfAt (length (heap st)) st"
  using cluster_wf [OF assms [unfolded clusterEvents_def] fresh_render_order] by simp

lemma wfAt_node:
  assumes "wfAt (length (heap st)) st" and "j < length (heap st)"
  shows "rowsOK (heap st) (containerEvents st) (length (heap st)) j"
    and "leavesOK (heap st) (length (heap st)) j"
    and "rowOK (heap st) (length (heap st)) j"
    and "contOK (heap st) (length (heap st)) j"
  using assms by (simp_all add: wfAt_def nodeOK_def)

subsection \<open>Widths\<close>

declare widthRec.simps(2) [simp del] xOffsetRec.simps(2) [simp del]


lemma maxRowSize_mono: "maxRowSize h rs mx = Inr m \<Longrightarrow> mx \<le> m"
proof (induction rs arbitrary: mx)
  case Nil
  then show ?case by simp
next
  case (Cons r rs)
  show ?case
  proof (cases "e_leaves (h ! r)")
    case None
    with Cons.prems show ?thesis by simp
  next
    case (Some ls)
    with Cons.prems have "maxRowSize h rs (max mx (length ls + 1)) = Inr m" by simp
    from Cons.IH [OF this] show ?thesis by simp
  qed
qed

lemma maxRowSize_ge:
  "maxRowSize h rs mx = Inr m \<Longrightarrow> r \<in> set rs \<Longrightarrow> e_leaves (h ! r) = Some ls \<Longrightarrow> length ls + 1 \<le> m"
proof (induction rs arbitrary: mx)
  case Nil
  then show ?case by simp
next
  case (Cons x rs)
  show ?case
  proof (cases "x = r")
    case True
    with Cons.prems have "maxRowSize h rs (max mx (length ls + 1)) = Inr m" by simp
    from maxRowSize_mono [OF this] show ?thesis by simp
  next
    case False
    with Cons show ?thesis by (auto split: option.splits)
  qed
qed








subsection \<open>The position of a leaf\<close>

lemma indexOf_nonneg_iff: "0 \<le> indexOf ls a \<longleftrightarrow> a \<in> set ls"
  by (induction ls) (auto simp: Let_def)

lemma indexOf_nth: "distinct ls \<Longrightarrow> k < length ls \<Longrightarrow> indexOf ls (ls ! k) = int k"
proof (induction ls arbitrary: k)
  case Nil
  then show ?case by simp
next
  case (Cons x ls)
  show ?case
  proof (cases k)
    case 0
    then show ?thesis by simp
  next
    case (Suc k')
    with Cons.prems have "ls ! k' \<noteq> x" "indexOf ls (ls ! k') = int k'"
      using Cons.IH [of k'] by auto
    with Suc show ?thesis by (simp add: Let_def)
  qed
qed

lemma indexOf_last_iff:
  assumes "distinct ls" and "a \<in> set ls"
  shows "indexOf ls a = int (length ls) - 1 \<longleftrightarrow> a = last ls"
proof -
  from assms(2) obtain k where k: "k < length ls" "ls ! k = a"
    by (auto simp: in_set_conv_nth)
  then have ne: "ls \<noteq> []" by auto
  have "indexOf ls a = int k" using indexOf_nth [OF assms(1) k(1)] k(2) by simp
  moreover have "a = last ls \<longleftrightarrow> k = length ls - 1"
    using k assms(1) ne by (auto simp: last_conv_nth nth_eq_iff_index_eq)
  ultimately show ?thesis using k(1) by auto
qed

subsection \<open>Offsets\<close>










lemma clusterEvents_collapse:
  "\<not> isl (clusterEvents msd locate events) \<Longrightarrow>
     clusterEvents msd locate events = Inr (projr (clusterEvents msd locate events))"
  by simp

section \<open>Claims about widths and offsets\<close>

subsection \<open>The final width\<close>

definition overlapWidth :: "dimension \<Rightarrow> dimension" where
  "overlapWidth w = \<lparr> d_value = min 100 (d_value w * 1.7), d_unit = d_unit w \<rparr>"

text \<open>
  Claim C4. In the layout that clustering produces, for every event whose effective
  width \<open>w\<close> is a percentage, with \<open>overlapWidth w\<close> of value
  \<open>min 100 (1.7 * value of w)\<close>: a container's final width is the overlap width; a
  row's final width is the overlap width if it has at least one leaf and \<open>w\<close>
  otherwise; a leaf is among the leaves of its row, and its final width is \<open>w\<close> if it
  is the last of them and the overlap width otherwise.
\<close>

theorem final_width_by_role:
  assumes "clusterEvents msd locate events = Inr st" and "i < length (heap st)"
    and "effectiveWidth (heap st) i = Inr w" and "d_unit w = ''%''"
  shows "(\<forall>rs. e_rows (heap st ! i) = Some rs \<longrightarrow> width (heap st) i = Inr (overlapWidth w))
    \<and> (\<forall>ls. e_leaves (heap st ! i) = Some ls \<longrightarrow>
          width (heap st) i = Inr (if ls = [] then w else overlapWidth w))
    \<and> (\<forall>r. e_row (heap st ! i) = Some r \<longrightarrow>
          (\<exists>ls. e_leaves (heap st ! r) = Some ls \<and> i \<in> set ls
             \<and> width (heap st) i = Inr (if i = last ls then w else overlapWidth w)))"
proof (intro conjI allI impI)
  let ?h = "heap st"
  note wf = clusterEvents_wf [OF assms(1)]
  {
    fix rs assume "e_rows (?h ! i) = Some rs"
    with assms(3,4) show "width ?h i = Inr (overlapWidth w)"
      by (simp add: width_def overlapWidth_def)
  next
    fix ls assume ls: "e_leaves (?h ! i) = Some ls"
    with wfAt_node(2) [OF wf assms(2)] have "e_rows (?h ! i) = None"
      by (simp add: leavesOK_def)
    with ls assms(3,4) show "width ?h i = Inr (if ls = [] then w else overlapWidth w)"
      by (simp add: width_def overlapWidth_def)
  next
    fix r assume r: "e_row (?h ! i) = Some r"
    with wfAt_node(3) [OF wf assms(2)]
    have i: "e_rows (?h ! i) = None" "e_leaves (?h ! i) = None" "r < length ?h"
      and "\<exists>ls. e_leaves (?h ! r) = Some ls \<and> i \<in> set ls"
      by (auto simp: rowOK_def)
    then obtain ls where ls: "e_leaves (?h ! r) = Some ls" "i \<in> set ls" by blast
    with wfAt_node(2) [OF wf i(3)] have "distinct ls" by (simp add: leavesOK_def)
    from indexOf_last_iff [OF this ls(2)] r i ls assms(3,4)
    have "width ?h i = Inr (if i = last ls then w else overlapWidth w)"
      by (simp add: width_def overlapWidth_def)
    with ls show "\<exists>ls. e_leaves (?h ! r) = Some ls \<and> i \<in> set ls
        \<and> width ?h i = Inr (if i = last ls then w else overlapWidth w)"
      by blast
  }
qed

theorem final_width_by_role_witness:
  "\<exists>ls. e_leaves (heap (projr (clusterEvents 1 (during [(0, 100), (10, 20), (15, 50)])
            [plain 0, plain 1, plain 2])) ! 1) = Some ls
     \<and> 2 \<in> set ls
     \<and> width (heap (projr (clusterEvents 1 (during [(0, 100), (10, 20), (15, 50)])
            [plain 0, plain 1, plain 2]))) 2
         = Inr (if 2 = last ls then pct (100 / 3) else overlapWidth (pct (100 / 3)))"
proof -
  let ?st = "projr (clusterEvents 1 (during [(0, 100), (10, 20), (15, 50)])
      [plain 0, plain 1, plain 2])"
  have "\<not> isl (clusterEvents 1 (during [(0, 100), (10, 20), (15, 50)]) [plain 0, plain 1, plain 2])"
    by code_simp
  then have run: "clusterEvents 1 (during [(0, 100), (10, 20), (15, 50)])
      [plain 0, plain 1, plain 2] = Inr ?st"
    by (rule clusterEvents_collapse)
  have "2 < length (heap ?st)" by code_simp
  moreover have "effectiveWidth (heap ?st) 2 = Inr (pct (100 / 3))" by code_simp
  moreover have "d_unit (pct (100 / 3)) = ''%''" by (simp add: pct_def)
  moreover have "e_row (heap ?st ! 2) = Some 1" by code_simp
  ultimately show ?thesis
    using final_width_by_role [OF run, of 2 "pct (100 / 3)"] by blast
qed







section \<open>Claims about the named group matrix\<close>

text \<open>
  Claim C5 holds only while the gaps stay above the constant \<open>-99999\<close> that the
  search for the best column starts from. Four grouped events of one key, the first
  three ending at \<open>200000\<close> in placement space and the fourth starting at \<open>0\<close>: the
  first three fill row 0; for the fourth a new slot row is appended, no gap exceeds
  \<open>-99999\<close>, so it is not placed there; a second empty row is appended, and
  \<^verbatim>\<open>matrix[r - 1][c].end\<close> reads the empty slot above: a \<^verbatim>\<open>TypeError\<close>.
\<close>

theorem sentinel_failing_input:
  "getStyledEvents 1 (during [(0, 200000), (0, 200000), (0, 200000), (0, 10)])
     [grouped 0 ''g'' (px 30), grouped 1 ''g'' (px 30), grouped 2 ''g'' (px 30),
      grouped 3 ''g'' (px 30)]
   = Inl TypeError"
  by code_simp

subsection \<open>Four events of one key\<close>










end
